theory Spec2Isabelle
  imports Complex_Main
begin

section \<open>Python strings\<close>

text \<open>
  A Python \<open>str\<close> is modelled as a \<open>string\<close> whose characters stand for the code
  points below 256. The character classes below are the ones CPython uses on that
  range: \<open>str.isspace\<close> (used by \<open>strip\<close> and \<open>split\<close>), the line boundaries of
  \<open>str.splitlines\<close>, and the word characters of the \<open>re\<close> module.
\<close>

definition is_space :: "char \<Rightarrow> bool" where
  "is_space c = (c \<in> {CHR 0x09, CHR 0x0A, CHR 0x0B, CHR 0x0C, CHR 0x0D,
                       CHR 0x1C, CHR 0x1D, CHR 0x1E, CHR 0x1F, CHR 0x20,
                       CHR 0x85, CHR 0xA0})"

definition is_linebreak :: "char \<Rightarrow> bool" where
  "is_linebreak c = (c \<in> {CHR 0x0A, CHR 0x0B, CHR 0x0C, CHR 0x0D,
                           CHR 0x1C, CHR 0x1D, CHR 0x1E, CHR 0x85})"

definition is_word_char :: "char \<Rightarrow> bool" where
  "is_word_char c =
     (let n = (of_char c :: nat)
      in (48 \<le> n \<and> n \<le> 57) \<or> (65 \<le> n \<and> n \<le> 90) \<or> n = 95 \<or> (97 \<le> n \<and> n \<le> 122)
         \<or> n = 170 \<or> n = 178 \<or> n = 179 \<or> n = 181 \<or> n = 185 \<or> n = 186
         \<or> n = 188 \<or> n = 189 \<or> n = 190
         \<or> (192 \<le> n \<and> n \<le> 214) \<or> (216 \<le> n \<and> n \<le> 246) \<or> (248 \<le> n \<and> n \<le> 255))"

text \<open>\<open>s.lstrip()\<close>, \<open>s.rstrip()\<close>, \<open>s.strip()\<close>.\<close>

definition lstrip :: "string \<Rightarrow> string" where
  "lstrip s = dropWhile is_space s"

definition rstrip :: "string \<Rightarrow> string" where
  "rstrip s = rev (dropWhile is_space (rev s))"

definition strip :: "string \<Rightarrow> string" where
  "strip s = rstrip (lstrip s)"

text \<open>\<open>"".join(s.split())\<close>: every whitespace character is dropped.\<close>

definition join_split :: "string \<Rightarrow> string" where
  "join_split s = filter (\<lambda>c. \<not> is_space c) s"

text \<open>\<open>s.startswith(p)\<close> and \<open>s.endswith(p)\<close>.\<close>

fun startswith :: "string \<Rightarrow> string \<Rightarrow> bool" where
  "startswith s [] = True"
| "startswith [] (p # ps) = False"
| "startswith (c # cs) (p # ps) = (c = p \<and> startswith cs ps)"

definition endswith :: "string \<Rightarrow> string \<Rightarrow> bool" where
  "endswith s p = startswith (rev s) (rev p)"

text \<open>\<open>m in s\<close> for two strings: \<open>m\<close> occurs in \<open>s\<close> as a contiguous run.\<close>

fun str_contains :: "string \<Rightarrow> string \<Rightarrow> bool" where
  "str_contains [] m = (m = [])"
| "str_contains (c # cs) m = (startswith (c # cs) m \<or> str_contains cs m)"

text \<open>
  \<open>s.splitlines()\<close>: the scan of CPython. A line ends at a line boundary; \<open>\r\n\<close> is one
  boundary; text after the last boundary is a line only when it is not empty.
\<close>

fun splitlines_from :: "string \<Rightarrow> string \<Rightarrow> string list" where
  "splitlines_from cur [] = (if cur = [] then [] else [cur])"
| "splitlines_from cur (c # cs) =
     (if is_linebreak c
      then cur # splitlines_from []
             (if c = CHR 0x0D \<and> take 1 cs = [CHR 0x0A] then drop 1 cs else cs)
      else splitlines_from (cur @ [c]) cs)"

definition splitlines :: "string \<Rightarrow> string list" where
  "splitlines s = splitlines_from [] s"

text \<open>\<open>"\n".join(xs)\<close>.\<close>

fun join_nl :: "string list \<Rightarrow> string" where
  "join_nl [] = []"
| "join_nl [x] = x"
| "join_nl (x # y # ys) = x @ CHR 0x0A # join_nl (y # ys)"

text \<open>
  \<open>s.lower()\<close> on code points below 256: the ASCII capitals and the Latin-1 capitals
  (\<open>0xC0\<close> to \<open>0xDE\<close> without the multiplication sign \<open>0xD7\<close>) move up by 32.
\<close>

definition lower_char :: "char \<Rightarrow> char" where
  "lower_char c =
     (let n = (of_char c :: nat)
      in if (65 \<le> n \<and> n \<le> 90) \<or> (192 \<le> n \<and> n \<le> 222 \<and> n \<noteq> 215)
         then char_of (n + 32) else c)"

definition lower :: "string \<Rightarrow> string" where
  "lower s = map lower_char s"

section \<open>Candidate resolution (\<open>route_prompt.py\<close>)\<close>

definition DEFAULT_FAST :: string where "DEFAULT_FAST = ''gpt-4.1-mini''"
definition DEFAULT_REASONING :: string where "DEFAULT_REASONING = ''claude-opus-4-6''"
definition DEFAULT_CODING :: string where "DEFAULT_CODING = ''codestral-2508''"
definition DEFAULT_DOCS :: string where "DEFAULT_DOCS = ''gemini-2.5-pro''"
definition DEFAULT_LOCAL :: string where "DEFAULT_LOCAL = ''ollama/llama3:latest''"

text \<open>
  \<open>re.search(r"\b(w1|w2|...)\b", t)\<close> as a truth value. \<open>\b\<close> holds between two
  neighbouring positions when exactly one of them is a word character, the outside of the
  string counting as a non-word character. The search tries every start position from
  the left and, at each, every alternative.
\<close>

fun opt_word :: "char option \<Rightarrow> bool" where
  "opt_word None = False"
| "opt_word (Some c) = is_word_char c"

definition word_boundary :: "char option \<Rightarrow> char option \<Rightarrow> bool" where
  "word_boundary p n = (opt_word p \<noteq> opt_word n)"

fun first_char :: "string \<Rightarrow> char option" where
  "first_char [] = None"
| "first_char (c # cs) = Some c"

definition last_char :: "char option \<Rightarrow> string \<Rightarrow> char option" where
  "last_char prev w = (if w = [] then prev else Some (last w))"

definition alt_matches_at :: "char option \<Rightarrow> string \<Rightarrow> string \<Rightarrow> bool" where
  "alt_matches_at prev rest w =
     (word_boundary prev (first_char rest) \<and> startswith rest w
      \<and> word_boundary (last_char prev w) (first_char (drop (length w) rest)))"

fun re_search_from :: "string list \<Rightarrow> char option \<Rightarrow> string \<Rightarrow> bool" where
  "re_search_from alts prev [] = list_ex (alt_matches_at prev []) alts"
| "re_search_from alts prev (c # cs) =
     (list_ex (alt_matches_at prev (c # cs)) alts \<or> re_search_from alts (Some c) cs)"

definition re_search_words :: "string list \<Rightarrow> string \<Rightarrow> bool" where
  "re_search_words alts t = re_search_from alts None t"

text \<open>The three alternations of \<open>_infer_task_class\<close>; \<open>analy[sz]e\<close> is written out.\<close>

definition coding_words :: "string list" where
  "coding_words = [''code'', ''python'', ''javascript'', ''bug'', ''stacktrace'', ''function'',
                   ''refactor'', ''compile'', ''script'', ''regex'', ''api'']"

definition docs_words :: "string list" where
  "docs_words = [''image'', ''pdf'', ''scan'', ''diagram'', ''screenshot'', ''document'', ''doc'']"

definition reasoning_words :: "string list" where
  "reasoning_words = [''reason'', ''analyse'', ''analyze'', ''proof'', ''math'', ''logic'',
                      ''plan'', ''strategy'', ''difficult'', ''deep'']"

definition infer_task_class :: "string \<Rightarrow> string" where
  "infer_task_class task =
     (let t = lower task
      in if re_search_words coding_words t then ''coding''
         else if re_search_words docs_words t then ''docs''
         else if re_search_words reasoning_words t then ''reasoning''
         else ''fast'')"

definition auto_candidates :: "string \<Rightarrow> string list" where
  "auto_candidates task =
     (let cls = infer_task_class task
      in if cls = ''coding'' then [DEFAULT_CODING, DEFAULT_REASONING, DEFAULT_FAST, DEFAULT_LOCAL]
         else if cls = ''docs'' then [DEFAULT_DOCS, DEFAULT_REASONING, DEFAULT_FAST, DEFAULT_LOCAL]
         else if cls = ''reasoning'' then [DEFAULT_REASONING, DEFAULT_FAST, DEFAULT_LOCAL]
         else [DEFAULT_FAST, DEFAULT_REASONING, DEFAULT_LOCAL])"

text \<open>
  The specification's wording of the classifier's test: some keyword occurs in the text,
  not preceded and not followed by a word character.
\<close>

definition contains_keyword :: "string list \<Rightarrow> string \<Rightarrow> bool" where
  "contains_keyword kws t =
     (\<exists>pre w post. t = pre @ w @ post \<and> w \<in> set kws
        \<and> (pre = [] \<or> \<not> is_word_char (last pre))
        \<and> (post = [] \<or> \<not> is_word_char (hd post)))"

text \<open>Every alternative is a non-empty word that begins and ends with a word character.\<close>

definition edge_words :: "string list \<Rightarrow> bool" where
  "edge_words alts = list_all (\<lambda>w. w \<noteq> [] \<and> is_word_char (hd w) \<and> is_word_char (last w)) alts"

section \<open>Values and the outside world (\<open>llm_adapters.py\<close>)\<close>

text \<open>
  A value decoded from JSON, as Python holds it: \<open>JNull\<close> is \<open>None\<close>, \<open>JDict\<close> lists the
  items of a \<open>dict\<close> (looked up with \<open>map_of\<close>). \<open>JFloat\<close> carries the number a
  \<open>float\<close> denotes.
\<close>

datatype json =
    JNull
  | JBool bool
  | JInt int
  | JFloat real
  | JStr string
  | JList "json list"
  | JDict "(string \<times> json) list"

text \<open>Python's truth value of such a value (\<open>if x:\<close>, \<open>x or y\<close>).\<close>

fun truthy :: "json \<Rightarrow> bool" where
  "truthy JNull = False"
| "truthy (JBool b) = b"
| "truthy (JInt n) = (n \<noteq> 0)"
| "truthy (JFloat r) = (r \<noteq> 0)"
| "truthy (JStr s) = (s \<noteq> [])"
| "truthy (JList xs) = (xs \<noteq> [])"
| "truthy (JDict kv) = (kv \<noteq> [])"

text \<open>\<open>d.get(k)\<close> on the items of a dict: \<open>None\<close> when the key is missing.\<close>

definition dict_get :: "(string \<times> json) list \<Rightarrow> string \<Rightarrow> json" where
  "dict_get kv k = (case map_of kv k of None \<Rightarrow> JNull | Some v \<Rightarrow> v)"

text \<open>\<open>x or ""\<close>.\<close>

definition or_empty :: "json \<Rightarrow> json" where
  "or_empty x = (if truthy x then x else JStr [])"

text \<open>\<open>a or d\<close> where \<open>a\<close> is a string or \<open>None\<close> and \<open>d\<close> a string.\<close>

fun str_or :: "string option \<Rightarrow> string \<Rightarrow> string" where
  "str_or None d = d"
| "str_or (Some v) d = (if v = [] then d else v)"

text \<open>A returned \<open>str | None\<close> tested with \<open>if t:\<close>.\<close>

fun str_truthy :: "string option \<Rightarrow> bool" where
  "str_truthy None = False"
| "str_truthy (Some t) = (t \<noteq> [])"

text \<open>
  The external calls the module makes, in the order they are made. \<open>BootstrapCall\<close> is not
  an external call: it marks each entry into \<open>_bootstrap_puter_token\<close> with its \<open>force\<close>
  argument, so that the calls can be counted.
\<close>

datatype event =
    SdkCheck
  | NpmInstall
  | BridgeRun "string list"
  | KeyedPost string string
  | OllamaPost string string
  | GeminiAsk string
  | BootstrapCall bool

text \<open>
  An HTTP call either raises (\<open>HttpFailed\<close>: no connection, timeout) or returns a response
  with a status code and a body; the body is \<open>None\<close> when \<open>r.json()\<close> raises.
\<close>

datatype http_result = HttpFailed | HttpResponse nat "json option"

text \<open>
  Everything outside the repository: the Python library functions the code calls and the
  answers of the file system, the subprocesses and the network. Every answer may depend on
  the calls made so far. A subprocess or HTTP call that raises (also on timeout) is an
  answer of its own.
\<close>

record world =
  json_loads :: "string \<Rightarrow> json option"
  str_of :: "json \<Rightarrow> string"
  sha256_hex :: "string \<Rightarrow> string"
  bridge_file_exists :: bool
  sdk_check :: "event list \<Rightarrow> bool"
  npm_install :: "event list \<Rightarrow> bool"
  bridge_run :: "event list \<Rightarrow> string list \<Rightarrow> (string \<rightharpoonup> string) \<Rightarrow> string option"
  keyed_post :: "event list \<Rightarrow> string \<Rightarrow> string \<Rightarrow> http_result"
  ollama_post :: "event list \<Rightarrow> string \<Rightarrow> string \<Rightarrow> http_result"
  gemini_enabled :: bool
  gemini_generate :: "event list \<Rightarrow> string \<Rightarrow> json"

text \<open>
  \<open>json_loads\<close> is \<open>json.loads\<close> (\<open>None\<close> when it raises), \<open>str_of\<close> is \<open>str()\<close> on a value
  that is not a string, \<open>sha256_hex\<close> is \<open>hashlib.sha256(..).hexdigest()\<close>.
  \<open>sdk_check\<close> holds when \<open>node -e require.resolve(..)\<close> ran and exited with 0,
  \<open>npm_install\<close> when the \<open>npm install\<close> call returned; \<open>bridge_run\<close> is the text on
  the standard output of the node bridge, \<open>None\<close> when \<open>subprocess.run\<close> raised;
  \<open>gemini_generate\<close> is the text of the reply, \<open>JNull\<close> when the call raised.
\<close>

text \<open>The module constants, read from the environment when the module is loaded.\<close>

record config =
  PUTER_KEY :: "string option"
  PUTER_DEFAULT_MODEL :: string
  PUTER_FALLBACK_MODEL :: string
  PUTER_AUTO_INSTALL_SDK :: bool
  OLLAMA_MODEL :: string

text \<open>\<open>if PUTER_KEY:\<close>.\<close>

definition has_static_key :: "config \<Rightarrow> bool" where
  "has_static_key cfg = str_truthy (PUTER_KEY cfg)"

text \<open>The durable key/value file \<open>llm/.env\<close>.\<close>

datatype file_state = Missing | Unreadable | Text string

text \<open>
  The state of the process: \<open>os.environ\<close>, the durable file, and the log of calls (oldest
  first).
\<close>

record state =
  environ :: "string \<rightharpoonup> string"
  sink :: file_state
  events :: "event list"

definition log_event :: "event \<Rightarrow> state \<Rightarrow> state" where
  "log_event e s = s\<lparr>events := events s @ [e]\<rparr>"

text \<open>\<open>str(x)\<close>.\<close>

definition py_str :: "world \<Rightarrow> json \<Rightarrow> string" where
  "py_str w x = (case x of JStr t \<Rightarrow> t | _ \<Rightarrow> str_of w x)"

text \<open>
  \<open>s.upper()\<close> on code points below 256. The sharp s becomes \<open>SS\<close>. The micro sign and
  the y with diaeresis, whose capitals lie above 255, are left as they are: the result is
  only compared with codes made of ASCII capitals, which it then differs from either way.
\<close>

definition upper_char :: "char \<Rightarrow> string" where
  "upper_char c =
     (let n = (of_char c :: nat)
      in if (97 \<le> n \<and> n \<le> 122) \<or> (224 \<le> n \<and> n \<le> 254 \<and> n \<noteq> 247)
         then [char_of (n - 32)]
         else if n = 223 then ''SS'' else [c])"

definition upper :: "string \<Rightarrow> string" where
  "upper s = concat (map upper_char s)"

subsection \<open>The cached token\<close>

definition puter_token :: "state \<Rightarrow> string" where
  "puter_token s =
     join_split (str_or (environ s ''puterAuthToken'')
                   (str_or (environ s ''PUTER_AUTH_TOKEN'') []))"

text \<open>
  An assignment to \<open>os.environ\<close> raises \<open>ValueError\<close> when the value holds a NUL
  character, and stores nothing. \<open>_set_puter_token\<close> does not catch it, and neither do its
  callers up to the router: their results carry the exception as \<open>Inl\<close>.
\<close>

datatype py_error = ValueError

definition set_puter_token :: "world \<Rightarrow> json \<Rightarrow> state \<Rightarrow> (py_error + string) \<times> state" where
  "set_puter_token w token s =
     (let clean = join_split (py_str w (or_empty token))
      in if clean = [] then (Inr [], s)
         else if CHR 0x00 \<in> set clean then (Inl ValueError, s)
         else (Inr clean,
               s\<lparr>environ := (environ s)(''puterAuthToken'' \<mapsto> clean,
                                           ''PUTER_AUTH_TOKEN'' \<mapsto> clean)\<rparr>))"


subsection \<open>The node bridge\<close>

definition ensure_puter_sdk :: "world \<Rightarrow> config \<Rightarrow> state \<Rightarrow> bool \<times> state" where
  "ensure_puter_sdk w cfg s =
     (if \<not> bridge_file_exists w then (False, s)
      else
        let s1 = log_event SdkCheck s
        in if sdk_check w (events s) then (True, s1)
           else if \<not> PUTER_AUTO_INSTALL_SDK cfg then (False, s1)
           else
             let s2 = log_event NpmInstall s1
             in if \<not> npm_install w (events s1) then (False, s2)
                else (sdk_check w (events s2), log_event SdkCheck s2))"

text \<open>
  The loop over the candidate strings of \<open>_run_puter_node_bridge\<close>: an empty candidate
  and one that does not start with \<open>{\<close> and end with \<open>}\<close> are skipped, a candidate that
  \<open>json.loads\<close> rejects is skipped, the first one it accepts is returned.
\<close>

fun parse_candidates :: "world \<Rightarrow> string list \<Rightarrow> json" where
  "parse_candidates w [] = JNull"
| "parse_candidates w (candidate # rest) =
     (if candidate = [] then parse_candidates w rest
      else if \<not> (startswith candidate ''{'' \<and> endswith candidate ''}'')
      then parse_candidates w rest
      else case json_loads w candidate of
             Some parsed \<Rightarrow> parsed
           | None \<Rightarrow> parse_candidates w rest)"

definition bridge_candidates :: "string \<Rightarrow> string list" where
  "bridge_candidates out = out # map strip (rev (splitlines out))"

definition parse_bridge_output :: "world \<Rightarrow> string \<Rightarrow> json" where
  "parse_bridge_output w stdout =
     (let out = strip stdout
      in if out = [] then JNull else parse_candidates w (bridge_candidates out))"

text \<open>\<open>env.setdefault(k, v)\<close>.\<close>

definition setdefault :: "(string \<rightharpoonup> string) \<Rightarrow> string \<Rightarrow> string \<Rightarrow> (string \<rightharpoonup> string)" where
  "setdefault env k v = (case env k of None \<Rightarrow> env(k \<mapsto> v) | Some _ \<Rightarrow> env)"

definition run_puter_node_bridge ::
  "world \<Rightarrow> config \<Rightarrow> string list \<Rightarrow> bool \<Rightarrow> state \<Rightarrow> json \<times> state" where
  "run_puter_node_bridge w cfg argv require_token s =
     (let token = puter_token s
      in if require_token \<and> token = [] then (JNull, s)
         else
           case ensure_puter_sdk w cfg s of
             (ok, s1) \<Rightarrow>
               if \<not> ok then (JNull, s1)
               else
                 let env = (if token \<noteq> []
                            then setdefault (setdefault (environ s1) ''puterAuthToken'' token)
                                   ''PUTER_AUTH_TOKEN'' token
                            else environ s1);
                     s2 = log_event (BridgeRun argv) s1
                 in (case bridge_run w (events s1) argv env of
                       None \<Rightarrow> (JNull, s2)
                     | Some stdout \<Rightarrow> (parse_bridge_output w stdout, s2)))"

subsection \<open>Authentication failures and the bootstrap\<close>

definition PUTER_AUTH_RETRY_ERRORS :: "string list" where
  "PUTER_AUTH_RETRY_ERRORS =
     [''MISSING_AUTH_TOKEN'', ''INVALID_TOKEN_PLACEHOLDER'', ''INIT_FAILED'',
      ''AUTH_BOOTSTRAP_FAILED'']"

definition PUTER_AUTH_RETRY_DETAIL_MARKERS :: "string list" where
  "PUTER_AUTH_RETRY_DETAIL_MARKERS =
     [''unauthorized'', ''forbidden'', ''invalid token'', ''invalid header value'', ''auth'',
      ''expired'', ''session'', ''401'', ''403'']"

definition bridge_error :: "world \<Rightarrow> json \<Rightarrow> string" where
  "bridge_error w payload =
     (case payload of
        JDict kv \<Rightarrow> upper (strip (py_str w (or_empty (dict_get kv ''error''))))
      | _ \<Rightarrow> [])"

definition bridge_detail :: "world \<Rightarrow> json \<Rightarrow> string" where
  "bridge_detail w payload =
     (case payload of
        JDict kv \<Rightarrow> lower (strip (py_str w (or_empty (dict_get kv ''detail''))))
      | _ \<Rightarrow> [])"

definition is_bridge_auth_failure :: "world \<Rightarrow> json \<Rightarrow> bool" where
  "is_bridge_auth_failure w payload =
     (let code = bridge_error w payload
      in if code \<in> set PUTER_AUTH_RETRY_ERRORS then True
         else
           let detail = bridge_detail w payload
           in detail \<noteq> [] \<and> list_ex (str_contains detail) PUTER_AUTH_RETRY_DETAIL_MARKERS)"

definition bootstrap_puter_token ::
  "world \<Rightarrow> config \<Rightarrow> bool \<Rightarrow> state \<Rightarrow> (py_error + string option) \<times> state" where
  "bootstrap_puter_token w cfg force s0 =
     (let s = log_event (BootstrapCall force) s0
      in if has_static_key cfg then (Inr None, s)
         else if \<not> bridge_file_exists w then (Inr None, s)
         else
           let existing = puter_token s
           in if existing \<noteq> [] \<and> \<not> force then (Inr (Some existing), s)
              else
                case run_puter_node_bridge w cfg [''auth-token''] False s of
                  (payload, s1) \<Rightarrow>
                    (case payload of
                       JDict kv \<Rightarrow>
                         if \<not> truthy (dict_get kv ''ok'') then (Inr None, s1)
                         else (case set_puter_token w (dict_get kv ''token'') s1 of
                                 (Inl e, s2) \<Rightarrow> (Inl e, s2)
                               | (Inr t, s2) \<Rightarrow> (Inr (Some t), s2))
                     | _ \<Rightarrow> (Inr None, s1)))"

definition run_puter_bridge_with_reauth ::
  "world \<Rightarrow> config \<Rightarrow> string list \<Rightarrow> state \<Rightarrow> (py_error + json) \<times> state" where
  "run_puter_bridge_with_reauth w cfg argv s =
     (if \<not> bridge_file_exists w then (Inr JNull, s)
      else
        case (if puter_token s = [] then bootstrap_puter_token w cfg False s
              else (Inr None, s)) of
          (Inl e, s1) \<Rightarrow> (Inl e, s1)
        | (Inr ignored, s1) \<Rightarrow>
            (case run_puter_node_bridge w cfg argv True s1 of
               (payload, s2) \<Rightarrow>
                 if payload = JNull \<and> puter_token s2 = []
                 then (case bootstrap_puter_token w cfg True s2 of
                         (Inl e, s3) \<Rightarrow> (Inl e, s3)
                       | (Inr t, s3) \<Rightarrow>
                           if str_truthy t
                           then (case run_puter_node_bridge w cfg argv True s3 of
                                   (retry, s4) \<Rightarrow> (Inr retry, s4))
                           else (Inr JNull, s3))
                 else if is_bridge_auth_failure w payload
                 then (case bootstrap_puter_token w cfg True s2 of
                         (Inl e, s3) \<Rightarrow> (Inl e, s3)
                       | (Inr t, s3) \<Rightarrow>
                           if str_truthy t
                           then (case run_puter_node_bridge w cfg argv True s3 of
                                   (retry, s4) \<Rightarrow>
                                     if retry \<noteq> JNull then (Inr retry, s4)
                                     else (Inr payload, s4))
                           else (Inr payload, s3))
                 else (Inr payload, s2)))"

subsection \<open>The dispatcher\<close>

fun text_bits :: "world \<Rightarrow> json list \<Rightarrow> string list" where
  "text_bits w [] = []"
| "text_bits w (JDict kv # bits) =
     (if map_of kv ''type'' = Some (JStr ''text'')
      then py_str w (case map_of kv ''text'' of None \<Rightarrow> JStr [] | Some v \<Rightarrow> v) # text_bits w bits
      else text_bits w bits)"
| "text_bits w (other # bits) = text_bits w bits"

fun message_content :: "world \<Rightarrow> json \<Rightarrow> string option" where
  "message_content w (JStr c) = Some c"
| "message_content w (JList c) =
     (let merged = strip (concat (text_bits w c))
      in if merged \<noteq> [] then Some merged else None)"
| "message_content w c = None"

fun choices_content :: "world \<Rightarrow> json \<Rightarrow> string option" where
  "choices_content w (JList (JDict first # rest)) =
     (case dict_get first ''message'' of
        JDict msg \<Rightarrow> message_content w (dict_get msg ''content'')
      | _ \<Rightarrow> None)"
| "choices_content w choices = None"

fun extract_chat_content :: "world \<Rightarrow> json \<Rightarrow> string option" where
  "extract_chat_content w (JDict kv) =
     (case dict_get kv ''content'' of
        JStr content \<Rightarrow>
          if strip content \<noteq> [] then Some content
          else choices_content w (dict_get kv ''choices'')
      | _ \<Rightarrow> choices_content w (dict_get kv ''choices''))"
| "extract_chat_content w payload = None"

text \<open>
  One keyed HTTP answer as the body of the \<open>try\<close> sees it: \<open>raise_for_status\<close> raises on
  a status from 400 to 599; every exception ends the attempt.
\<close>

definition raises_for_status :: "nat \<Rightarrow> bool" where
  "raises_for_status status = (400 \<le> status \<and> status < 600)"

definition keyed_content :: "world \<Rightarrow> http_result \<Rightarrow> string option" where
  "keyed_content w r =
     (case r of
        HttpFailed \<Rightarrow> None
      | HttpResponse status body \<Rightarrow>
          if raises_for_status status then None
          else (case body of None \<Rightarrow> None | Some j \<Rightarrow> extract_chat_content w j))"

text \<open>The first loop of \<open>call_puter_with_model\<close>, run when a static key is configured.\<close>

fun keyed_loop ::
  "world \<Rightarrow> string \<Rightarrow> string list \<Rightarrow> state \<Rightarrow> (string \<times> string) option \<times> state" where
  "keyed_loop w prompt [] s = (None, s)"
| "keyed_loop w prompt (chosen # rest) s =
     (let s1 = log_event (KeyedPost chosen prompt) s
      in case keyed_content w (keyed_post w (events s) chosen prompt) of
           Some content \<Rightarrow>
             if content \<noteq> [] then (Some (content, chosen), s1)
             else keyed_loop w prompt rest s1
         | None \<Rightarrow> keyed_loop w prompt rest s1)"

text \<open>The second loop: the bridge, with re-authentication, for each candidate.\<close>

definition chat_argv :: "string \<Rightarrow> string \<Rightarrow> string list" where
  "chat_argv chosen prompt = [''chat'', ''--model'', chosen, ''--prompt'', prompt]"

definition bridge_success :: "json \<Rightarrow> bool" where
  "bridge_success payload =
     (case payload of
        JDict kv \<Rightarrow> truthy (dict_get kv ''ok'') \<and> truthy (dict_get kv ''content'')
      | _ \<Rightarrow> False)"

definition bridge_reply :: "world \<Rightarrow> string \<Rightarrow> json \<Rightarrow> string \<times> string" where
  "bridge_reply w chosen payload =
     (case payload of
        JDict kv \<Rightarrow>
          (py_str w (dict_get kv ''content''),
           py_str w (if truthy (dict_get kv ''model'') then dict_get kv ''model'' else JStr chosen))
      | _ \<Rightarrow> ([], []))"

fun bridge_loop ::
  "world \<Rightarrow> config \<Rightarrow> string \<Rightarrow> string list \<Rightarrow> state
     \<Rightarrow> (py_error + (string \<times> string) option) \<times> state"
where
  "bridge_loop w cfg prompt [] s = (Inr None, s)"
| "bridge_loop w cfg prompt (chosen # rest) s =
     (case run_puter_bridge_with_reauth w cfg (chat_argv chosen prompt) s of
        (Inl e, s1) \<Rightarrow> (Inl e, s1)
      | (Inr payload, s1) \<Rightarrow>
          if bridge_success payload then (Inr (Some (bridge_reply w chosen payload)), s1)
          else bridge_loop w cfg prompt rest s1)"

definition puter_candidates :: "config \<Rightarrow> string option \<Rightarrow> string list" where
  "puter_candidates cfg model =
     (let selected = strip (str_or model (PUTER_DEFAULT_MODEL cfg));
          candidates = (if selected \<noteq> [] then [selected] else []);
          fallback = strip (PUTER_FALLBACK_MODEL cfg);
          candidates = (if fallback \<noteq> [] \<and> fallback \<notin> set candidates
                        then candidates @ [fallback] else candidates)
      in if candidates = [] then [''claude-opus-4-6''] else candidates)"

text \<open>
  The result pair of \<open>call_puter_with_model\<close> is \<open>(content, model)\<close> or \<open>(None, None)\<close>.
  \<open>dispatch\<close> is the body of \<open>call_puter_with_model\<close> after the candidate list is built:
  the keyed loop when a static key is configured, then the bridge loop.
\<close>

fun result_pair :: "(string \<times> string) option \<Rightarrow> string option \<times> string option" where
  "result_pair None = (None, None)"
| "result_pair (Some (content, used)) = (Some content, Some used)"

definition dispatch ::
  "world \<Rightarrow> config \<Rightarrow> string \<Rightarrow> string list \<Rightarrow> state
     \<Rightarrow> (py_error + (string \<times> string) option) \<times> state" where
  "dispatch w cfg prompt candidates s =
     (case (if has_static_key cfg then keyed_loop w prompt candidates s else (None, s)) of
        (Some r, s1) \<Rightarrow> (Inr (Some r), s1)
      | (None, s1) \<Rightarrow> bridge_loop w cfg prompt candidates s1)"

definition call_puter_with_model ::
  "world \<Rightarrow> config \<Rightarrow> string \<Rightarrow> string option \<Rightarrow> state
     \<Rightarrow> (py_error + string option \<times> string option) \<times> state" where
  "call_puter_with_model w cfg prompt model s =
     (case dispatch w cfg prompt (puter_candidates cfg model) s of
        (Inl e, s1) \<Rightarrow> (Inl e, s1)
      | (Inr r, s1) \<Rightarrow> (Inr (result_pair r), s1))"

definition call_puter :: "world \<Rightarrow> config \<Rightarrow> string \<Rightarrow> string option \<Rightarrow> state
     \<Rightarrow> (py_error + string option) \<times> state" where
  "call_puter w cfg prompt model s =
     (case call_puter_with_model w cfg prompt model s of
        (Inl e, s1) \<Rightarrow> (Inl e, s1)
      | (Inr (content, used_model), s1) \<Rightarrow> (Inr content, s1))"


subsection \<open>The local tier and the router\<close>

text \<open>
  What \<open>query_ollama\<close> returns from the answer it ends with: \<open>r.json().get("response")\<close>,
  and \<open>None\<close> on every exception (also when the body is not a dict).
\<close>

definition ollama_response :: "http_result \<Rightarrow> json" where
  "ollama_response r =
     (case r of
        HttpFailed \<Rightarrow> JNull
      | HttpResponse status body \<Rightarrow>
          if raises_for_status status then JNull
          else (case body of Some (JDict kv) \<Rightarrow> dict_get kv ''response'' | _ \<Rightarrow> JNull))"

definition query_ollama ::
  "world \<Rightarrow> config \<Rightarrow> string \<Rightarrow> string option \<Rightarrow> state \<Rightarrow> json \<times> state" where
  "query_ollama w cfg prompt model s =
     (let chosen = str_or model (OLLAMA_MODEL cfg);
          s1 = log_event (OllamaPost chosen prompt) s
      in case ollama_post w (events s) chosen prompt of
           HttpFailed \<Rightarrow> (JNull, s1)
         | HttpResponse status body \<Rightarrow>
             if status = 404 \<and> chosen \<noteq> ''llama3:latest''
             then (ollama_response (ollama_post w (events s1) ''llama3:latest'' prompt),
                   log_event (OllamaPost ''llama3:latest'' prompt) s1)
             else (ollama_response (HttpResponse status body), s1))"

definition gemini_ask :: "world \<Rightarrow> string \<Rightarrow> state \<Rightarrow> json \<times> state" where
  "gemini_ask w prompt s =
     (if \<not> gemini_enabled w then (JNull, s)
      else (gemini_generate w (events s) prompt, log_event (GeminiAsk prompt) s))"

text \<open>\<open>os.getenv(k, d)\<close>.\<close>

definition getenv_default :: "state \<Rightarrow> string \<Rightarrow> string \<Rightarrow> string" where
  "getenv_default s k d = (case environ s k of None \<Rightarrow> d | Some v \<Rightarrow> v)"

definition local_only :: "state \<Rightarrow> bool" where
  "local_only s = (getenv_default s ''QTM_LOCAL_ONLY'' ''1'' = ''1'')"

definition ask_router ::
  "world \<Rightarrow> config \<Rightarrow> string \<Rightarrow> state \<Rightarrow> (py_error + json \<times> string) \<times> state" where
  "ask_router w cfg prompt s =
     (case (if \<not> local_only s then call_puter w cfg prompt None s else (Inr None, s)) of
        (Inl e, s1) \<Rightarrow> (Inl e, s1)
      | (Inr resp, s1) \<Rightarrow>
          (case (if \<not> local_only s \<and> str_truthy resp then resp else None) of
             Some content \<Rightarrow> (Inr (JStr content, ''puter''), s1)
           | None \<Rightarrow>
               (case query_ollama w cfg prompt None s1 of
                  (resp, s2) \<Rightarrow>
                    if truthy resp then (Inr (resp, ''ollama''), s2)
                    else if \<not> local_only s \<and> gemini_enabled w
                    then (case gemini_ask w prompt s2 of
                            (resp, s3) \<Rightarrow>
                              if truthy resp then (Inr (resp, ''gemini''), s3)
                              else (Inr (JNull, ''none''), s3))
                    else (Inr (JNull, ''none''), s2))))"

section \<open>The durable sink (\<open>cognitive_system.py\<close>)\<close>

text \<open>
  \<open>read_text\<close> opens the file in text mode: \<open>\r\n\<close> and a lone \<open>\r\<close> are read as
  \<open>\n\<close>. \<open>write_text\<close> stores the text as it is (the line separator of POSIX).
\<close>

fun universal_newlines :: "string \<Rightarrow> string" where
  "universal_newlines [] = []"
| "universal_newlines (c # cs) =
     (if c = CHR 0x0D
      then CHR 0x0A # universal_newlines (if take 1 cs = [CHR 0x0A] then drop 1 cs else cs)
      else c # universal_newlines cs)"

text \<open>The lines read at the start of \<open>_upsert_env_var\<close>: none when the file is missing or
  cannot be read.\<close>

definition read_lines :: "file_state \<Rightarrow> string list" where
  "read_lines f =
     (case f of
        Missing \<Rightarrow> []
      | Unreadable \<Rightarrow> []
      | Text t \<Rightarrow> splitlines (universal_newlines t))"

fun upsert_loop :: "string \<Rightarrow> string \<Rightarrow> string list \<Rightarrow> string list \<times> bool \<Rightarrow> string list \<times> bool"
where
  "upsert_loop key val [] (out, replaced) = (out, replaced)"
| "upsert_loop key val (line # lines) (out, replaced) =
     (if startswith (strip line) (key @ ''='')
      then upsert_loop key val lines (out @ [key @ ''='' @ val], True)
      else upsert_loop key val lines (out @ [line], replaced))"

definition upsert_lines :: "string \<Rightarrow> string \<Rightarrow> string list \<Rightarrow> string list" where
  "upsert_lines key val lines =
     (case upsert_loop key val lines ([], False) of
        (out, replaced) \<Rightarrow> if \<not> replaced then out @ [key @ ''='' @ val] else out)"

datatype os_error = OSError

text \<open>
  \<open>_upsert_env_var\<close>. \<open>io_ok\<close> tells whether \<open>mkdir\<close> and \<open>write_text\<close> go through; when
  one of them raises, the exception leaves the function.
\<close>

definition upsert_env_var :: "bool \<Rightarrow> string \<Rightarrow> string \<Rightarrow> file_state \<Rightarrow> os_error + file_state" where
  "upsert_env_var io_ok key val f =
     (if \<not> io_ok then Inl OSError
      else Inr (Text (rstrip (join_nl (upsert_lines key val (read_lines f))) @ [CHR 0x0A])))"

definition token_sha256 :: "world \<Rightarrow> string \<Rightarrow> string" where
  "token_sha256 w token = sha256_hex w token"


section \<open>Auxiliary notions for the statements\<close>

text \<open>A token value that \<open>_set_puter_token\<close> cleans to the empty string: a false value
  (\<open>None\<close>, the empty string) or a string of whitespace only.\<close>

definition blank_token :: "json \<Rightarrow> bool" where
  "blank_token token =
     (\<not> truthy token \<or> (case token of JStr t \<Rightarrow> list_all is_space t | _ \<Rightarrow> False))"

text \<open>The calls that leave the process: everything in the log but the bootstrap marks.\<close>

fun is_external :: "event \<Rightarrow> bool" where
  "is_external (BootstrapCall force) = False"
| "is_external e = True"

text \<open>
  A small world for concrete runs. Its \<open>json.loads\<close> knows four texts; the node bridge
  answers \<open>auth-token\<close> with a token and every other request with an authentication
  failure; the keyed endpoint and the local server are down.
\<close>

definition toy_loads :: "string \<Rightarrow> json option" where
  \<open>toy_loads t =
     (if t = ''{"ok": true, "token": "tok 1"}''
      then Some (JDict [(''ok'', JBool True), (''token'', JStr ''tok 1'')])
      else if t = ''{"ok": true, "token": " "}''
      then Some (JDict [(''ok'', JBool True), (''token'', JStr '' '')])
      else if t = ''{"ok": false, "error": "MISSING_AUTH_TOKEN"}''
      then Some (JDict [(''ok'', JBool False), (''error'', JStr ''MISSING_AUTH_TOKEN'')])
      else if t = ''{"ok": true, "content": "hi"}''
      then Some (JDict [(''ok'', JBool True), (''content'', JStr ''hi'')])
      else None)\<close>

definition toy_world :: world where
  \<open>toy_world =
     \<lparr>json_loads = toy_loads,
      str_of = (\<lambda>j. ''?''),
      sha256_hex = (\<lambda>t. ''00''),
      bridge_file_exists = True,
      sdk_check = (\<lambda>h. True),
      npm_install = (\<lambda>h. True),
      bridge_run = (\<lambda>h argv env.
         if argv = [''auth-token''] then Some (''login...'' @ [CHR 0x0A] @ ''{"ok": true, "token": "tok 1"}'' @ [CHR 0x0A])
         else Some ''{"ok": false, "error": "MISSING_AUTH_TOKEN"}''),
      keyed_post = (\<lambda>h m p. HttpFailed),
      ollama_post = (\<lambda>h m p. HttpFailed),
      gemini_enabled = False,
      gemini_generate = (\<lambda>h p. JNull)\<rparr>\<close>

definition toy_config :: config where
  "toy_config =
     \<lparr>PUTER_KEY = None,
      PUTER_DEFAULT_MODEL = ''claude-opus-4-6'',
      PUTER_FALLBACK_MODEL = ''claude-opus-4-6'',
      PUTER_AUTO_INSTALL_SDK = True,
      OLLAMA_MODEL = ''llama3:latest''\<rparr>"

definition toy_state :: "(string \<rightharpoonup> string) \<Rightarrow> state" where
  "toy_state env = \<lparr>environ = env, sink = Missing, events = []\<rparr>"


definition blank_world :: world where
  \<open>blank_world = toy_world\<lparr>bridge_run := (\<lambda>h argv env. Some ''{"ok": true, "token": " "}'')\<rparr>\<close>

definition keyed_config :: config where
  "keyed_config = toy_config\<lparr>PUTER_KEY := Some ''sk-1''\<rparr>"

definition cached_state :: state where
  "cached_state = toy_state [''PUTER_AUTH_TOKEN'' \<mapsto> ''tok'']"

text \<open>The same world without the bridge script on disk.\<close>

definition scriptless_world :: world where
  "scriptless_world = toy_world\<lparr>bridge_file_exists := False\<rparr>"

text \<open>The calls to the local inference server.\<close>

fun is_local_call :: "event \<Rightarrow> bool" where
  "is_local_call (OllamaPost model prompt) = True"
| "is_local_call e = False"

text \<open>The events a run has added to the log of the state it started from.\<close>

definition new_events :: "state \<Rightarrow> state \<Rightarrow> event list" where
  "new_events s s' = drop (length (events s)) (events s')"

text \<open>
  The parser of the bridge output in the specification's words: of the candidate strings,
  the trimmed output first and then its lines, last line first, the first that is a
  well-formed JSON object is decoded; when there is none the result is \<open>None\<close>.
\<close>

definition well_formed_object :: "world \<Rightarrow> string \<Rightarrow> bool" where
  "well_formed_object w c =
     (startswith c ''{'' \<and> endswith c ''}'' \<and> json_loads w c \<noteq> None)"

definition spec_parse :: "world \<Rightarrow> string \<Rightarrow> json" where
  "spec_parse w stdout =
     (let out = strip stdout
      in case List.find (well_formed_object w) (out # map strip (rev (splitlines out))) of
           None \<Rightarrow> JNull
         | Some c \<Rightarrow> (case json_loads w c of None \<Rightarrow> JNull | Some parsed \<Rightarrow> parsed))"

text \<open>
  The dispatcher in the specification's words: the candidates are taken one at a time,
  and for each the keyed call comes first and, when it fails, the bridge path for the same
  candidate, before the next candidate is looked at.
\<close>

fun spec_dispatch ::
  "world \<Rightarrow> config \<Rightarrow> string \<Rightarrow> string list \<Rightarrow> state
     \<Rightarrow> (py_error + (string \<times> string) option) \<times> state"
where
  "spec_dispatch w cfg prompt [] s = (Inr None, s)"
| "spec_dispatch w cfg prompt (chosen # rest) s =
     (case (if has_static_key cfg then keyed_loop w prompt [chosen] s else (None, s)) of
        (Some r, s1) \<Rightarrow> (Inr (Some r), s1)
      | (None, s1) \<Rightarrow>
          (case bridge_loop w cfg prompt [chosen] s1 of
             (Inr None, s2) \<Rightarrow> spec_dispatch w cfg prompt rest s2
           | (r, s2) \<Rightarrow> (r, s2)))"

fun is_keyed_call :: "event \<Rightarrow> bool" where
  "is_keyed_call (KeyedPost model prompt) = True"
| "is_keyed_call e = False"

text \<open>What one call of \<open>_run_puter_node_bridge\<close> adds to the log: the SDK probes, then the
  run of the bridge or nothing.\<close>

definition bridge_events :: "string list \<Rightarrow> event list \<Rightarrow> bool" where
  "bridge_events argv X =
     (\<exists>Y Z. X = Y @ Z \<and> set Y \<subseteq> {SdkCheck, NpmInstall} \<and> (Z = [] \<or> Z = [BridgeRun argv]))"

text \<open>A world whose bridge answers every request, the login too, with an authentication
  failure.\<close>

definition failing_world :: world where
  \<open>failing_world =
     toy_world\<lparr>bridge_run := (\<lambda>h argv env. Some ''{"ok": false, "error": "MISSING_AUTH_TOKEN"}'')\<rparr>\<close>

text \<open>The reply of the toy bridge to a chat request.\<close>

definition auth_failure_reply :: json where
  "auth_failure_reply = JDict [(''ok'', JBool False), (''error'', JStr ''MISSING_AUTH_TOKEN'')]"

text \<open>
  The log when the keyed calls of the first \<open>i\<close> candidates have been made, and what the
  keyed call of candidate \<open>i\<close> then yields: the content, or \<open>None\<close> when the call fails.
\<close>

definition keyed_history :: "string \<Rightarrow> string list \<Rightarrow> state \<Rightarrow> nat \<Rightarrow> event list" where
  "keyed_history prompt cands s i = events s @ map (\<lambda>m. KeyedPost m prompt) (take i cands)"

definition keyed_answer :: "world \<Rightarrow> string \<Rightarrow> string list \<Rightarrow> state \<Rightarrow> nat \<Rightarrow> string option" where
  "keyed_answer w prompt cands s i =
     keyed_content w (keyed_post w (keyed_history prompt cands s i) (cands ! i) prompt)"

text \<open>
  The state when the bridge path has been gone through for the candidates \<open>cs\<close>, the
  attempt for candidate \<open>i\<close> after the attempts for the candidates before it, and an
  attempt that leaves the loop going: a reply that is no success.
\<close>

definition bridge_state :: "world \<Rightarrow> config \<Rightarrow> string \<Rightarrow> string list \<Rightarrow> state \<Rightarrow> state" where
  "bridge_state w cfg prompt cs s =
     foldl (\<lambda>s c. snd (run_puter_bridge_with_reauth w cfg (chat_argv c prompt) s)) s cs"

definition bridge_attempt ::
  "world \<Rightarrow> config \<Rightarrow> string \<Rightarrow> string list \<Rightarrow> state \<Rightarrow> nat \<Rightarrow> (py_error + json) \<times> state" where
  "bridge_attempt w cfg prompt cands s i =
     run_puter_bridge_with_reauth w cfg (chat_argv (cands ! i) prompt)
       (bridge_state w cfg prompt (take i cands) s)"

definition attempt_fails :: "(py_error + json) \<times> state \<Rightarrow> bool" where
  "attempt_fails x = (case fst x of Inl e \<Rightarrow> False | Inr payload \<Rightarrow> \<not> bridge_success payload)"

text \<open>A world whose keyed endpoint serves one model only.\<close>

definition keyed_world :: world where
  "keyed_world =
     toy_world\<lparr>keyed_post := (\<lambda>h m p.
        if m = ''claude-opus-4-6'' then HttpResponse 200 (Some (JDict [(''content'', JStr ''yo'')]))
        else HttpFailed)\<rparr>"

text \<open>A run from \<open>s\<close> to \<open>s'\<close> that only adds to the log, and adds no keyed HTTP call.\<close>

definition adds_no_keyed :: "state \<Rightarrow> state \<Rightarrow> bool" where
  "adds_no_keyed s s' =
     (\<exists>X. events s' = events s @ X \<and> list_all (\<lambda>e. \<not> is_keyed_call e) X)"

text \<open>
  Notions to describe what \<open>_upsert_env_var\<close> writes: the test of the loop on one line,
  the line it puts out, a list of lines as text with \<open>\n\<close> after each, and a list of lines
  without its trailing blank lines and without the whitespace at the end of its last line.
\<close>

definition matches_key :: "string \<Rightarrow> string \<Rightarrow> bool" where
  "matches_key key line = startswith (strip line) (key @ ''='')"

definition upsert_line :: "string \<Rightarrow> string \<Rightarrow> string \<Rightarrow> string" where
  "upsert_line key val line = (if matches_key key line then key @ ''='' @ val else line)"

definition lines_text :: "string list \<Rightarrow> string" where
  "lines_text ls = concat (map (\<lambda>l. l @ [CHR 0x0A]) ls)"

fun trim_lines :: "string list \<Rightarrow> string list" where
  "trim_lines [] = []"
| "trim_lines (l # ls) =
     (if trim_lines ls = [] then (if rstrip l = [] then [] else [rstrip l])
      else l # trim_lines ls)"

text \<open>
  A world whose bridge answers the login with a token that holds a NUL character, written
  \<open>\u0000\<close> in the JSON text.
\<close>

definition nul_reply :: string where
  \<open>nul_reply = ''{"ok": true, "token": "a'' @ [CHR 0x5C] @ ''u0000b"}''\<close>

definition nul_loads :: "string \<Rightarrow> json option" where
  "nul_loads t =
     (if t = nul_reply
      then Some (JDict [(''ok'', JBool True), (''token'', JStr [CHR ''a'', CHR 0x00, CHR ''b''])])
      else toy_loads t)"

definition nul_world :: world where
  \<open>nul_world =
     toy_world\<lparr>json_loads := nul_loads,
               bridge_run := (\<lambda>h argv env.
                 if argv = [''auth-token''] then Some nul_reply
                 else Some ''{"ok": false, "error": "MISSING_AUTH_TOKEN"}'')\<rparr>\<close>


section \<open>Properties of the string operations\<close>

lemma startswith_iff: "startswith s p \<longleftrightarrow> (\<exists>post. s = p @ post)"
  by (induction s p rule: startswith.induct) auto

lemma first_char_word: "opt_word (first_char s) \<longleftrightarrow> (s \<noteq> [] \<and> is_word_char (hd s))"
  by (cases s) auto

lemma alt_matches_at_iff:
  assumes "w \<noteq> []" "is_word_char (hd w)" "is_word_char (last w)"
  shows "alt_matches_at prev rest w \<longleftrightarrow>
    (\<not> opt_word prev \<and> (\<exists>post. rest = w @ post \<and> (post = [] \<or> \<not> is_word_char (hd post))))"
  using assms
  by (auto simp: alt_matches_at_def word_boundary_def startswith_iff last_char_def first_char_word)

lemma re_search_from_iff:
  assumes "edge_words alts"
  shows "re_search_from alts prev t \<longleftrightarrow>
    (\<exists>pre w post. t = pre @ w @ post \<and> w \<in> set alts
       \<and> \<not> opt_word (if pre = [] then prev else Some (last pre))
       \<and> (post = [] \<or> \<not> is_word_char (hd post)))"
proof (induction t arbitrary: prev)
  case Nil
  have "\<And>w. w \<in> set alts \<Longrightarrow> w \<noteq> []"
    using assms by (auto simp: edge_words_def list_all_iff)
  then show ?case
    by (auto simp: list_ex_iff alt_matches_at_def startswith_iff)
next
  case (Cons c cs)
  have ew: "\<And>w. w \<in> set alts \<Longrightarrow> w \<noteq> [] \<and> is_word_char (hd w) \<and> is_word_char (last w)"
    using assms by (auto simp: edge_words_def list_all_iff)
  have here: "list_ex (alt_matches_at prev (c # cs)) alts \<longleftrightarrow>
      (\<exists>w post. c # cs = w @ post \<and> w \<in> set alts \<and> \<not> opt_word prev
         \<and> (post = [] \<or> \<not> is_word_char (hd post)))"
    using ew by (auto simp: list_ex_iff alt_matches_at_iff)
  have later: "re_search_from alts (Some c) cs \<longleftrightarrow>
      (\<exists>pre w post. c # cs = (c # pre) @ w @ post \<and> w \<in> set alts
         \<and> \<not> opt_word (Some (last (c # pre)))
         \<and> (post = [] \<or> \<not> is_word_char (hd post)))"
    unfolding Cons.IH by auto
  show ?case
  proof
    assume "re_search_from alts prev (c # cs)"
    then consider "list_ex (alt_matches_at prev (c # cs)) alts" | "re_search_from alts (Some c) cs"
      by auto
    then show "\<exists>pre w post. c # cs = pre @ w @ post \<and> w \<in> set alts
       \<and> \<not> opt_word (if pre = [] then prev else Some (last pre))
       \<and> (post = [] \<or> \<not> is_word_char (hd post))"
    proof cases
      case 1
      then obtain w post where "c # cs = [] @ w @ post" "w \<in> set alts" "\<not> opt_word prev"
        "post = [] \<or> \<not> is_word_char (hd post)" unfolding here by auto
      then show ?thesis by (intro exI[of _ "[]"] exI[of _ w] exI[of _ post]) simp
    next
      case 2
      then obtain pre w post where "c # cs = (c # pre) @ w @ post" "w \<in> set alts"
         "\<not> opt_word (Some (last (c # pre)))" "post = [] \<or> \<not> is_word_char (hd post)"
        unfolding later by blast
      then show ?thesis by (intro exI[of _ "c # pre"] exI[of _ w] exI[of _ post]) simp
    qed
  next
    assume "\<exists>pre w post. c # cs = pre @ w @ post \<and> w \<in> set alts
       \<and> \<not> opt_word (if pre = [] then prev else Some (last pre))
       \<and> (post = [] \<or> \<not> is_word_char (hd post))"
    then obtain pre w post where h: "c # cs = pre @ w @ post" "w \<in> set alts"
       "\<not> opt_word (if pre = [] then prev else Some (last pre))"
       "post = [] \<or> \<not> is_word_char (hd post)" by blast
    show "re_search_from alts prev (c # cs)"
    proof (cases pre)
      case Nil
      with h have "list_ex (alt_matches_at prev (c # cs)) alts" unfolding here by auto
      then show ?thesis by simp
    next
      case (Cons p pre')
      with h have "p = c" by simp
      with h Cons have "re_search_from alts (Some c) cs" unfolding later
        by (intro exI[of _ pre'] exI[of _ w] exI[of _ post]) auto
      then show ?thesis by simp
    qed
  qed
qed

lemma re_search_words_iff:
  assumes "edge_words alts"
  shows "re_search_words alts t = contains_keyword alts t"
proof -
  have *: "\<And>pre. (\<not> opt_word (if pre = [] then None else Some (last pre)))
                = (pre = [] \<or> \<not> is_word_char (last pre))"
    by simp
  show ?thesis
    unfolding re_search_words_def contains_keyword_def re_search_from_iff[OF assms] * ..
qed

lemma edge_coding: "edge_words coding_words"
  by (simp add: edge_words_def coding_words_def is_word_char_def)
lemma edge_docs: "edge_words docs_words"
  by (simp add: edge_words_def docs_words_def is_word_char_def)
lemma edge_reasoning: "edge_words reasoning_words"
  by (simp add: edge_words_def reasoning_words_def is_word_char_def)

text \<open>
  Claim C9. For every task text, candidate resolution returns a value: the class is found by
  keyword containment at word boundaries in the lower-cased text, the classes being tried
  in the order coding, docs, reasoning, with fast as the fallback when no keyword occurs;
  the candidates are the fixed list of that class, which is not empty and whose last entry
  is the local fallback model.
\<close>

theorem auto_candidates_resolution:
  "infer_task_class task =
     (if contains_keyword coding_words (lower task) then ''coding''
      else if contains_keyword docs_words (lower task) then ''docs''
      else if contains_keyword reasoning_words (lower task) then ''reasoning''
      else ''fast'')
   \<and> auto_candidates task =
     (if contains_keyword coding_words (lower task)
      then [DEFAULT_CODING, DEFAULT_REASONING, DEFAULT_FAST, DEFAULT_LOCAL]
      else if contains_keyword docs_words (lower task)
      then [DEFAULT_DOCS, DEFAULT_REASONING, DEFAULT_FAST, DEFAULT_LOCAL]
      else if contains_keyword reasoning_words (lower task)
      then [DEFAULT_REASONING, DEFAULT_FAST, DEFAULT_LOCAL]
      else [DEFAULT_FAST, DEFAULT_REASONING, DEFAULT_LOCAL])
   \<and> auto_candidates task \<noteq> []
   \<and> last (auto_candidates task) = DEFAULT_LOCAL"
  by (simp add: infer_task_class_def auto_candidates_def Let_def re_search_words_iff
        edge_coding edge_docs edge_reasoning)

theorem auto_candidates_resolution_witness:
  "contains_keyword coding_words (lower ''Fix the BUG in my doc'')
   \<and> infer_task_class ''Fix the BUG in my doc'' = ''coding''
   \<and> auto_candidates ''Fix the BUG in my doc''
       = [''codestral-2508'', ''claude-opus-4-6'', ''gpt-4.1-mini'', ''ollama/llama3:latest'']
   \<and> \<not> contains_keyword coding_words (lower ''Scan the PDF'')
   \<and> contains_keyword docs_words (lower ''Scan the PDF'')
   \<and> auto_candidates ''Scan the PDF''
       = [''gemini-2.5-pro'', ''claude-opus-4-6'', ''gpt-4.1-mini'', ''ollama/llama3:latest'']
   \<and> \<not> contains_keyword reasoning_words (lower ''hello there'')
   \<and> auto_candidates ''hello there''
       = [''gpt-4.1-mini'', ''claude-opus-4-6'', ''ollama/llama3:latest'']"
proof -
  have e: "infer_task_class ''Fix the BUG in my doc'' = ''coding''"
    "infer_task_class ''Scan the PDF'' = ''docs''"
    "infer_task_class ''hello there'' = ''fast''"
    by code_simp+
  have 1: "contains_keyword coding_words (lower ''Fix the BUG in my doc'')"
    using auto_candidates_resolution [of "''Fix the BUG in my doc''"] e(1)
    by (auto split: if_splits)
  have 2: "\<not> contains_keyword coding_words (lower ''Scan the PDF'')
           \<and> contains_keyword docs_words (lower ''Scan the PDF'')"
    using auto_candidates_resolution [of "''Scan the PDF''"] e(2)
    by (auto split: if_splits)
  have 3: "\<not> contains_keyword coding_words (lower ''hello there'')
           \<and> \<not> contains_keyword docs_words (lower ''hello there'')
           \<and> \<not> contains_keyword reasoning_words (lower ''hello there'')"
    using auto_candidates_resolution [of "''hello there''"] e(3)
    by (auto split: if_splits)
  show ?thesis
    using auto_candidates_resolution [of "''Fix the BUG in my doc''"]
      auto_candidates_resolution [of "''Scan the PDF''"]
      auto_candidates_resolution [of "''hello there''"] 1 2 3
    by (simp add: DEFAULT_LOCAL_def DEFAULT_CODING_def DEFAULT_REASONING_def DEFAULT_FAST_def
          DEFAULT_DOCS_def)
qed

section \<open>The cached token\<close>

lemma join_split_blank: "list_all is_space t \<Longrightarrow> join_split t = []"
  by (induction t) (auto simp: join_split_def)

lemma join_split_idem: "join_split (join_split t) = join_split t"
  by (simp add: join_split_def)

lemma environ_log_event [simp]: "environ (log_event e s) = environ s"
  by (simp add: log_event_def)

lemma sink_log_event [simp]: "sink (log_event e s) = sink s"
  by (simp add: log_event_def)

lemma events_log_event [simp]: "events (log_event e s) = events s @ [e]"
  by (simp add: log_event_def)

lemma puter_token_log_event [simp]: "puter_token (log_event e s) = puter_token s"
  by (simp add: puter_token_def)

lemma ensure_puter_sdk_keeps:
  "environ (snd (ensure_puter_sdk w cfg s)) = environ s
   \<and> sink (snd (ensure_puter_sdk w cfg s)) = sink s"
  by (simp add: ensure_puter_sdk_def Let_def)

lemma run_puter_node_bridge_keeps:
  "environ (snd (run_puter_node_bridge w cfg argv rt s)) = environ s
   \<and> sink (snd (run_puter_node_bridge w cfg argv rt s)) = sink s"
  using ensure_puter_sdk_keeps [of w cfg s]
  by (auto simp: run_puter_node_bridge_def Let_def split: prod.splits option.splits)

lemma set_puter_token_blank: "blank_token token \<Longrightarrow> set_puter_token w token s = (Inr [], s)"
  by (cases token)
     (auto simp: blank_token_def set_puter_token_def or_empty_def py_str_def join_split_blank
                 Let_def)

text \<open>
  Claim C10. A token that is empty, \<open>None\<close> or whitespace only is not stored: the setter
  returns the empty string and the state, with both environment keys, is as before. A
  bootstrap whose reply is ok but carries such a token returns the empty string, which is
  false in the tests of its callers, and the environment and the cached token are as
  before.
\<close>

theorem set_puter_token_blank_noop:
  "blank_token token \<Longrightarrow>
     set_puter_token w token s = (Inr [], s)
     \<and> (\<not> has_static_key cfg \<longrightarrow> bridge_file_exists w \<longrightarrow> (force \<or> puter_token s = []) \<longrightarrow>
          run_puter_node_bridge w cfg [''auth-token''] False (log_event (BootstrapCall force) s)
            = (JDict kv, s1) \<longrightarrow>
          truthy (dict_get kv ''ok'') \<longrightarrow> dict_get kv ''token'' = token \<longrightarrow>
            bootstrap_puter_token w cfg force s = (Inr (Some []), s1)
            \<and> \<not> str_truthy (Some [])
            \<and> environ s1 = environ s \<and> puter_token s1 = puter_token s)"
proof (intro conjI impI)
  assume b: "blank_token token"
  show "set_puter_token w token s = (Inr [], s)" by (rule set_puter_token_blank [OF b])
  assume h: "\<not> has_static_key cfg" "bridge_file_exists w" "force \<or> puter_token s = []"
    "run_puter_node_bridge w cfg [''auth-token''] False (log_event (BootstrapCall force) s)
       = (JDict kv, s1)"
    "truthy (dict_get kv ''ok'')" "dict_get kv ''token'' = token"
  show r: "bootstrap_puter_token w cfg force s = (Inr (Some []), s1)"
    using h b by (auto simp: bootstrap_puter_token_def Let_def set_puter_token_blank)
  show "\<not> str_truthy (Some [])" by simp
  show e: "environ s1 = environ s"
    using run_puter_node_bridge_keeps
            [of w cfg "[''auth-token'']" False "log_event (BootstrapCall force) s"] h(4)
    by simp
  then show "puter_token s1 = puter_token s" by (simp add: puter_token_def)
qed

lemma blank_run:
  \<open>run_puter_node_bridge blank_world toy_config [''auth-token''] False
     (log_event (BootstrapCall True) (toy_state Map.empty))
   = (JDict [(''ok'', JBool True), (''token'', JStr '' '')],
      \<lparr>environ = Map.empty, sink = Missing,
       events = [BootstrapCall True, SdkCheck, BridgeRun [''auth-token'']]\<rparr>)\<close>
  by (simp add: run_puter_node_bridge_def blank_world_def toy_world_def toy_config_def toy_state_def
        puter_token_def join_split_def ensure_puter_sdk_def log_event_def Let_def
        parse_bridge_output_def strip_def lstrip_def rstrip_def is_space_def bridge_candidates_def
        splitlines_def is_linebreak_def endswith_def toy_loads_def)

theorem set_puter_token_blank_noop_witness:
  \<open>blank_token (JStr '' '')
   \<and> set_puter_token blank_world (JStr '' '') (toy_state Map.empty) = (Inr [], toy_state Map.empty)
   \<and> bootstrap_puter_token blank_world toy_config True (toy_state Map.empty)
       = (Inr (Some []), \<lparr>environ = Map.empty, sink = Missing,
                    events = [BootstrapCall True, SdkCheck, BridgeRun [''auth-token'']]\<rparr>)\<close>
proof -
  have b: "blank_token (JStr '' '')"
    by (simp add: blank_token_def is_space_def)
  have k: "\<not> has_static_key toy_config" "bridge_file_exists blank_world"
    by (simp_all add: has_static_key_def toy_config_def blank_world_def toy_world_def)
  show ?thesis
    using set_puter_token_blank_noop [OF b, of blank_world "toy_state Map.empty" toy_config True
                "[(''ok'', JBool True), (''token'', JStr '' '')]"] k blank_run b
    by (simp add: dict_get_def)
qed

section \<open>The bootstrap\<close>

lemma cached_token: "puter_token cached_state = ''tok''"
  by (simp add: puter_token_def cached_state_def toy_state_def join_split_def is_space_def)

text \<open>
  The cached token is what \<open>_puter_token\<close> reads: a value of \<open>puterAuthToken\<close> that is
  only whitespace hides a token under \<open>PUTER_AUTH_TOKEN\<close>.
\<close>

lemma puter_token_blank_primary:
  "puter_token (toy_state [''puterAuthToken'' \<mapsto> '' '', ''PUTER_AUTH_TOKEN'' \<mapsto> ''tok'']) = []"
  by (simp add: puter_token_def toy_state_def join_split_def is_space_def)

text \<open>
  Claim C6, as stated, fails when the bridge script is missing: with no static key and the
  token \<open>tok\<close> cached, a bootstrap that is not forced returns \<open>None\<close>, not the token.
\<close>

theorem bootstrap_missing_script_ignores_cache:
  "\<not> has_static_key toy_config
   \<and> puter_token cached_state = ''tok''
   \<and> bootstrap_puter_token scriptless_world toy_config False cached_state
       = (Inr None, log_event (BootstrapCall False) cached_state)"
  by (simp add: cached_token bootstrap_puter_token_def scriptless_world_def toy_world_def
        toy_config_def has_static_key_def Let_def)

text \<open>
  Claim C6, amended. When the token that \<open>_puter_token\<close> reads from the environment is
  not empty, a bootstrap that is not forced returns \<open>None\<close> if a static key is configured
  or the bridge script does not exist, and that token otherwise. In every case it makes no
  external call (the log gains only the mark of the bootstrap call itself), the
  environment and the durable file are untouched, and a second such call returns the same.
\<close>

theorem bootstrap_cached_token_free:
  "puter_token s \<noteq> [] \<Longrightarrow>
     bootstrap_puter_token w cfg False s
       = (Inr (if has_static_key cfg \<or> \<not> bridge_file_exists w then None
               else Some (puter_token s)),
          log_event (BootstrapCall False) s)
     \<and> filter is_external (events (snd (bootstrap_puter_token w cfg False s)))
         = filter is_external (events s)
     \<and> environ (snd (bootstrap_puter_token w cfg False s)) = environ s
     \<and> sink (snd (bootstrap_puter_token w cfg False s)) = sink s
     \<and> fst (bootstrap_puter_token w cfg False (snd (bootstrap_puter_token w cfg False s)))
         = fst (bootstrap_puter_token w cfg False s)"
  by (simp add: bootstrap_puter_token_def Let_def)

theorem bootstrap_cached_token_free_witness:
  "puter_token cached_state \<noteq> []
   \<and> bootstrap_puter_token toy_world toy_config False cached_state
       = (Inr (Some ''tok''), log_event (BootstrapCall False) cached_state)
   \<and> bootstrap_puter_token toy_world keyed_config False cached_state
       = (Inr None, log_event (BootstrapCall False) cached_state)"
  using bootstrap_cached_token_free [of cached_state toy_world toy_config]
    bootstrap_cached_token_free [of cached_state toy_world keyed_config] cached_token
  by (simp add: has_static_key_def keyed_config_def toy_config_def toy_world_def)


lemma set_puter_token_result:
  "set_puter_token w token s = (Inr t, s') \<Longrightarrow> t \<noteq> [] \<Longrightarrow>
     t = join_split (py_str w (or_empty token))
     \<and> environ s' = (environ s)(''puterAuthToken'' \<mapsto> t, ''PUTER_AUTH_TOKEN'' \<mapsto> t)
     \<and> sink s' = sink s \<and> events s' = events s"
  by (auto simp: set_puter_token_def Let_def split: if_splits)

lemma puter_token_after_set:
  "environ s' = (environ s)(''puterAuthToken'' \<mapsto> join_split x, ''PUTER_AUTH_TOKEN'' \<mapsto> join_split x)
   \<Longrightarrow> join_split x \<noteq> [] \<Longrightarrow> puter_token s' = join_split x"
  by (simp add: puter_token_def join_split_def)

text \<open>
  Claim C7, amended. A bootstrap that goes to the bridge and returns a non-empty token
  got an ok reply; the token is the reply's token field with all whitespace dropped; it
  is stored under both environment keys, it is what \<open>_puter_token\<close> reads afterwards, and
  the durable file is as before.
\<close>

theorem bootstrap_success_stores_token:
  assumes "bootstrap_puter_token w cfg force s = (Inr (Some t), s')" "t \<noteq> []"
    and "force \<or> puter_token s = []"
  shows "\<exists>kv s1. run_puter_node_bridge w cfg [''auth-token''] False
                    (log_event (BootstrapCall force) s) = (JDict kv, s1)
           \<and> truthy (dict_get kv ''ok'')
           \<and> t = join_split (py_str w (or_empty (dict_get kv ''token'')))
           \<and> environ s' = (environ s)(''puterAuthToken'' \<mapsto> t, ''PUTER_AUTH_TOKEN'' \<mapsto> t)
           \<and> puter_token s' = t
           \<and> sink s' = sink s"
proof -
  let ?s0 = "log_event (BootstrapCall force) s"
  obtain payload s1 where r: "run_puter_node_bridge w cfg [''auth-token''] False ?s0 = (payload, s1)"
    by (cases "run_puter_node_bridge w cfg [''auth-token''] False ?s0") auto
  have keep: "environ s1 = environ s" "sink s1 = sink s"
    using run_puter_node_bridge_keeps [of w cfg "[''auth-token'']" False ?s0] r by simp_all
  from assms r obtain kv where kv: "payload = JDict kv" "truthy (dict_get kv ''ok'')"
      and st: "set_puter_token w (dict_get kv ''token'') s1 = (Inr t, s')"
    by (auto simp: bootstrap_puter_token_def Let_def
             split: if_splits json.splits prod.splits sum.splits)
  from set_puter_token_result [OF st assms(2)] keep
  have t: "t = join_split (py_str w (or_empty (dict_get kv ''token'')))"
    and e: "environ s' = (environ s)(''puterAuthToken'' \<mapsto> t, ''PUTER_AUTH_TOKEN'' \<mapsto> t)"
    and k: "sink s' = sink s"
    by simp_all
  have "puter_token s' = t"
    using puter_token_after_set [of s' s "py_str w (or_empty (dict_get kv ''token''))"] e t assms(2)
    by simp
  with r kv t e k show ?thesis by blast
qed

lemma toy_bootstrap:
  "bootstrap_puter_token toy_world toy_config True (toy_state Map.empty)
     = (Inr (Some ''tok1''),
        \<lparr>environ = [''puterAuthToken'' \<mapsto> ''tok1'', ''PUTER_AUTH_TOKEN'' \<mapsto> ''tok1''],
         sink = Missing,
         events = [BootstrapCall True, SdkCheck, BridgeRun [''auth-token'']]\<rparr>)"
  by (simp add: bootstrap_puter_token_def has_static_key_def
        run_puter_node_bridge_def toy_world_def toy_config_def toy_state_def
        puter_token_def join_split_def ensure_puter_sdk_def log_event_def Let_def
        parse_bridge_output_def strip_def lstrip_def rstrip_def is_space_def bridge_candidates_def
        splitlines_def is_linebreak_def endswith_def toy_loads_def dict_get_def
        set_puter_token_def or_empty_def py_str_def)

text \<open>
  Claim C7, as stated, fails: after a successful bootstrap the durable file is still
  missing, where an upsert of the key would have written the line, and no fingerprint is
  in the environment.
\<close>

theorem bootstrap_leaves_sink:
  "fst (bootstrap_puter_token toy_world toy_config True (toy_state Map.empty))
     = Inr (Some ''tok1'')
   \<and> sink (snd (bootstrap_puter_token toy_world toy_config True (toy_state Map.empty))) = Missing
   \<and> upsert_env_var True ''PUTER_AUTH_TOKEN'' ''tok1'' Missing
        = Inr (Text (''PUTER_AUTH_TOKEN=tok1'' @ [CHR 0x0A]))
   \<and> environ (snd (bootstrap_puter_token toy_world toy_config True (toy_state Map.empty)))
        ''PUTER_TOKEN_SHA256'' = None"
  by (simp add: toy_bootstrap upsert_env_var_def read_lines_def upsert_lines_def rstrip_def
        is_space_def)

theorem bootstrap_success_stores_token_witness:
  "bootstrap_puter_token toy_world toy_config True (toy_state Map.empty)
     = (Inr (Some ''tok1''),
        \<lparr>environ = [''puterAuthToken'' \<mapsto> ''tok1'', ''PUTER_AUTH_TOKEN'' \<mapsto> ''tok1''],
         sink = Missing,
         events = [BootstrapCall True, SdkCheck, BridgeRun [''auth-token'']]\<rparr>)
   \<and> puter_token \<lparr>environ = [''puterAuthToken'' \<mapsto> ''tok1'', ''PUTER_AUTH_TOKEN'' \<mapsto> ''tok1''],
         sink = Missing,
         events = [BootstrapCall True, SdkCheck, BridgeRun [''auth-token'']]\<rparr> = ''tok1''"
  using bootstrap_success_stores_token [OF toy_bootstrap] toy_bootstrap by auto

section \<open>The router in local-only mode\<close>

lemma new_events_append [simp]: "events s' = events s @ X \<Longrightarrow> new_events s s' = X"
  by (simp add: new_events_def)

lemma query_ollama_events:
  "\<exists>X. events (snd (query_ollama w cfg prompt model s)) = events s @ X
       \<and> X \<noteq> [] \<and> list_all is_local_call X"
  by (auto simp: query_ollama_def Let_def split: http_result.splits)

text \<open>
  Claim C5. In local-only mode (\<open>QTM_LOCAL_ONLY\<close> unset or \<open>1\<close>) the router is the local
  query alone: its answer is the answer of \<open>query_ollama\<close>, tagged \<open>ollama\<close>, or
  \<open>(None, "none")\<close>; the calls it adds to the log are one or two posts to the local
  server, and no keyed post, no subprocess and no other call.
\<close>

theorem local_only_isolation:
  assumes "local_only s"
  shows "ask_router w cfg prompt s
           = (case query_ollama w cfg prompt None s of
                (resp, s2) \<Rightarrow> (Inr (if truthy resp then (resp, ''ollama'') else (JNull, ''none'')), s2))
         \<and> events (snd (ask_router w cfg prompt s))
             = events s @ new_events s (snd (ask_router w cfg prompt s))
         \<and> new_events s (snd (ask_router w cfg prompt s)) \<noteq> []
         \<and> list_all is_local_call (new_events s (snd (ask_router w cfg prompt s)))"
proof -
  have eq: "ask_router w cfg prompt s
           = (case query_ollama w cfg prompt None s of
                (resp, s2) \<Rightarrow> (Inr (if truthy resp then (resp, ''ollama'') else (JNull, ''none'')), s2))"
    using assms by (simp add: ask_router_def split: prod.splits)
  then have sn: "snd (ask_router w cfg prompt s) = snd (query_ollama w cfg prompt None s)"
    by (simp split: prod.splits)
  obtain X where X: "events (snd (query_ollama w cfg prompt None s)) = events s @ X"
      "X \<noteq> []" "list_all is_local_call X"
    using query_ollama_events by blast
  have ev: "events (snd (ask_router w cfg prompt s)) = events s @ X"
    using sn X(1) by simp
  have ne: "new_events s (snd (ask_router w cfg prompt s)) = X"
    using ev by simp
  show ?thesis
    unfolding ne by (intro conjI eq ev X(2) X(3))
qed

theorem local_only_isolation_witness:
  "local_only (toy_state Map.empty)
   \<and> ask_router toy_world keyed_config ''hi'' (toy_state Map.empty)
       = (Inr (JNull, ''none''),
          \<lparr>environ = Map.empty, sink = Missing, events = [OllamaPost ''llama3:latest'' ''hi'']\<rparr>)"
proof -
  have l: "local_only (toy_state Map.empty)"
    by (simp add: local_only_def getenv_default_def toy_state_def)
  have q: "query_ollama toy_world keyed_config ''hi'' None (toy_state Map.empty)
       = (JNull, \<lparr>environ = Map.empty, sink = Missing, events = [OllamaPost ''llama3:latest'' ''hi'']\<rparr>)"
    by (simp add: query_ollama_def toy_world_def keyed_config_def toy_config_def toy_state_def
          log_event_def Let_def)
  show ?thesis
    using local_only_isolation [OF l, of toy_world keyed_config "''hi''"] l q by simp
qed

section \<open>The parser of the bridge output\<close>

lemma parse_candidates_find:
  "parse_candidates w cs
     = (case List.find (well_formed_object w) cs of
          None \<Rightarrow> JNull
        | Some c \<Rightarrow> (case json_loads w c of None \<Rightarrow> JNull | Some parsed \<Rightarrow> parsed))"
proof (induction cs)
  case Nil
  show ?case by simp
next
  case (Cons c cs)
  have e: "c = [] \<Longrightarrow> \<not> well_formed_object w c"
    by (simp add: well_formed_object_def)
  show ?case
    using Cons e by (auto simp: well_formed_object_def split: option.splits)
qed

lemma parse_bridge_output_spec: "parse_bridge_output w stdout = spec_parse w stdout"
  by (simp add: parse_bridge_output_def spec_parse_def Let_def parse_candidates_find
        bridge_candidates_def well_formed_object_def splitlines_def)

text \<open>
  Claim C4. The parser returns what the specification describes: of the trimmed output
  followed by its lines in reverse order, the first candidate that starts with \<open>{\<close>, ends
  with \<open>}\<close> and is accepted by \<open>json.loads\<close> is returned decoded, and \<open>None\<close> when there
  is none. The bridge call returns a value in every case: \<open>None\<close> when a required token is
  absent, when the SDK cannot be resolved, and when the subprocess raises (a timeout is
  one such case), and the parser's result otherwise.
\<close>

theorem bridge_output_parse:
  "parse_bridge_output w stdout = spec_parse w stdout
   \<and> fst (run_puter_node_bridge w cfg argv require_token s)
       = (if require_token \<and> puter_token s = [] then JNull
          else if \<not> fst (ensure_puter_sdk w cfg s) then JNull
          else case bridge_run w (events (snd (ensure_puter_sdk w cfg s))) argv
                      (if puter_token s \<noteq> []
                       then setdefault (setdefault (environ s) ''puterAuthToken'' (puter_token s))
                              ''PUTER_AUTH_TOKEN'' (puter_token s)
                       else environ s) of
                 None \<Rightarrow> JNull
               | Some stdout \<Rightarrow> spec_parse w stdout)"
  using ensure_puter_sdk_keeps [of w cfg s]
  by (auto simp: parse_bridge_output_spec run_puter_node_bridge_def Let_def
           split: prod.splits option.splits)

theorem bridge_output_parse_witness:
  \<open>parse_bridge_output toy_world (''log line'' @ [CHR 0x0A] @ ''{"ok": true, "content": "hi"}'' @ [CHR 0x0A])
     = JDict [(''ok'', JBool True), (''content'', JStr ''hi'')]
   \<and> parse_bridge_output toy_world (''log line'' @ [CHR 0x0A] @ ''{"ok": tr'' @ [CHR 0x0A]) = JNull\<close>
proof -
  have a: \<open>spec_parse toy_world (''log line'' @ [CHR 0x0A] @ ''{"ok": true, "content": "hi"}'' @ [CHR 0x0A])
     = JDict [(''ok'', JBool True), (''content'', JStr ''hi'')]\<close>
    by (simp add: spec_parse_def toy_world_def toy_loads_def well_formed_object_def
          strip_def lstrip_def rstrip_def is_space_def splitlines_def is_linebreak_def endswith_def)
  have b: \<open>spec_parse toy_world (''log line'' @ [CHR 0x0A] @ ''{"ok": tr'' @ [CHR 0x0A]) = JNull\<close>
    by (simp add: spec_parse_def toy_world_def toy_loads_def well_formed_object_def
          strip_def lstrip_def rstrip_def is_space_def splitlines_def is_linebreak_def endswith_def)
  show ?thesis
    using bridge_output_parse [of toy_world \<open>''log line'' @ [CHR 0x0A] @ ''{"ok": true, "content": "hi"}'' @ [CHR 0x0A]\<close>]
      bridge_output_parse [of toy_world \<open>''log line'' @ [CHR 0x0A] @ ''{"ok": tr'' @ [CHR 0x0A]\<close>] a b
    by simp
qed

section \<open>Re-authentication\<close>

lemma bridge_events_counts:
  assumes "bridge_events argv X"
  shows "count_list X (BootstrapCall b) = 0"
    and "count_list X (KeyedPost m p) = 0"
    and "a \<noteq> argv \<Longrightarrow> count_list X (BridgeRun a) = 0"
    and "count_list X (BridgeRun argv) \<le> 1"
    and "list_all (\<lambda>e. \<not> is_keyed_call e) X"
proof -
  from assms obtain Y Z where X: "X = Y @ Z" and Y: "set Y \<subseteq> {SdkCheck, NpmInstall}"
    and Z: "Z = [] \<or> Z = [BridgeRun argv]"
    unfolding bridge_events_def by blast
  have y: "\<And>e. e \<noteq> SdkCheck \<Longrightarrow> e \<noteq> NpmInstall \<Longrightarrow> count_list Y e = 0"
    using Y by (auto simp: count_list_0_iff)
  show "count_list X (BootstrapCall b) = 0" using X Z y by auto
  show "count_list X (KeyedPost m p) = 0" using X Z y by auto
  show "a \<noteq> argv \<Longrightarrow> count_list X (BridgeRun a) = 0" using X Z y by auto
  show "count_list X (BridgeRun argv) \<le> 1" using X Z y by auto
  show "list_all (\<lambda>e. \<not> is_keyed_call e) X" using X Z Y by (auto simp: list_all_iff)
qed

lemma ensure_puter_sdk_events:
  "\<exists>Y. events (snd (ensure_puter_sdk w cfg s)) = events s @ Y \<and> set Y \<subseteq> {SdkCheck, NpmInstall}"
  by (simp add: ensure_puter_sdk_def Let_def)

lemma run_puter_node_bridge_events:
  "\<exists>X. events (snd (run_puter_node_bridge w cfg argv rt s)) = events s @ X
       \<and> bridge_events argv X
       \<and> (fst (run_puter_node_bridge w cfg argv rt s) \<noteq> JNull \<longrightarrow> count_list X (BridgeRun argv) = 1)"
proof -
  obtain ok s1 where e: "ensure_puter_sdk w cfg s = (ok, s1)"
    by (cases "ensure_puter_sdk w cfg s") auto
  obtain Y where Y: "events s1 = events s @ Y" "set Y \<subseteq> {SdkCheck, NpmInstall}"
    using ensure_puter_sdk_events [of w cfg s] e by auto
  have y: "count_list Y (BridgeRun argv) = 0"
    using Y(2) by (auto simp: count_list_0_iff)
  show ?thesis
  proof (cases "(rt \<and> puter_token s = []) \<or> \<not> ok")
    case True
    then consider "rt \<and> puter_token s = []" | "\<not> (rt \<and> puter_token s = [])" "\<not> ok" by blast
    then show ?thesis
    proof cases
      case 1
      then show ?thesis
        by (intro exI[of _ "[]"]) (simp add: run_puter_node_bridge_def bridge_events_def)
    next
      case 2
      then show ?thesis
        using e Y
        by (intro exI[of _ Y])
           (auto simp: run_puter_node_bridge_def Let_def bridge_events_def)
    qed
  next
    case False
    then show ?thesis
      using e Y y
      by (intro exI[of _ "Y @ [BridgeRun argv]"])
         (auto simp: run_puter_node_bridge_def Let_def bridge_events_def split: option.splits)
  qed
qed

lemma bootstrap_puter_token_events:
  "\<exists>X. events (snd (bootstrap_puter_token w cfg force s)) = events s @ BootstrapCall force # X
       \<and> bridge_events [''auth-token''] X"
proof -
  let ?s0 = "log_event (BootstrapCall force) s"
  obtain X where X: "events (snd (run_puter_node_bridge w cfg [''auth-token''] False ?s0))
      = events ?s0 @ X" "bridge_events [''auth-token''] X"
    using run_puter_node_bridge_events by blast
  have nil: "bridge_events [''auth-token''] []"
    by (simp add: bridge_events_def)
  have st: "\<And>tok s1. events (snd (set_puter_token w tok s1)) = events s1"
    by (simp add: set_puter_token_def Let_def)
  show ?thesis
  proof (cases "has_static_key cfg \<or> \<not> bridge_file_exists w \<or> (puter_token s \<noteq> [] \<and> \<not> force)")
    case True
    then show ?thesis
      using nil by (intro exI[of _ "[]"]) (auto simp: bootstrap_puter_token_def Let_def)
  next
    case False
    then show ?thesis
      using X st
      by (intro exI[of _ X])
         (auto simp: bootstrap_puter_token_def Let_def
               split: prod.splits json.splits sum.splits,
          (metis snd_conv)+)
  qed
qed


lemma is_bridge_auth_failure_None [simp]: "\<not> is_bridge_auth_failure w JNull"
  by (simp add: is_bridge_auth_failure_def bridge_error_def bridge_detail_def
        PUTER_AUTH_RETRY_ERRORS_def)

lemma run_puter_node_bridge_runs:
  assumes "puter_token s \<noteq> []"
  shows "\<exists>X. events (snd (run_puter_node_bridge w cfg argv rt s)) = events s @ X
           \<and> count_list X (BridgeRun argv) = (if fst (ensure_puter_sdk w cfg s) then 1 else 0)"
proof -
  obtain ok s1 where e: "ensure_puter_sdk w cfg s = (ok, s1)"
    by (cases "ensure_puter_sdk w cfg s") auto
  obtain Y where Y: "events s1 = events s @ Y" "set Y \<subseteq> {SdkCheck, NpmInstall}"
    using ensure_puter_sdk_events [of w cfg s] e by auto
  have y: "count_list Y (BridgeRun argv) = 0"
    using Y(2) by (auto simp: count_list_0_iff)
  show ?thesis
  proof (cases ok)
    case True
    then show ?thesis
      using e Y y assms
      by (intro exI[of _ "Y @ [BridgeRun argv]"])
         (auto simp: run_puter_node_bridge_def Let_def log_event_def split: option.splits)
  next
    case False
    then show ?thesis
      using e Y y assms
      by (intro exI[of _ Y]) (auto simp: run_puter_node_bridge_def Let_def)
  qed
qed

lemma bootstrap_forced_token:
  assumes "bootstrap_puter_token w cfg True s = (Inr (Some t), s')" "t \<noteq> []"
  shows "puter_token s' = t"
proof -
  let ?s0 = "log_event (BootstrapCall True) s"
  obtain payload s1 where r: "run_puter_node_bridge w cfg [''auth-token''] False ?s0 = (payload, s1)"
    by (cases "run_puter_node_bridge w cfg [''auth-token''] False ?s0") auto
  from assms r obtain kv where st: "set_puter_token w (dict_get kv ''token'') s1 = (Inr t, s')"
    by (auto simp: bootstrap_puter_token_def Let_def
             split: if_splits json.splits prod.splits sum.splits)
  from set_puter_token_result [OF st assms(2)]
  have t: "t = join_split (py_str w (or_empty (dict_get kv ''token'')))"
    and e: "environ s' = (environ s1)(''puterAuthToken'' \<mapsto> t, ''PUTER_AUTH_TOKEN'' \<mapsto> t)"
    by simp_all
  show ?thesis
    using puter_token_after_set [of s' s1 "py_str w (or_empty (dict_get kv ''token''))"] e t assms(2)
    by simp
qed

text \<open>
  Claim C2, amended. For one candidate, the bridge path with re-authentication adds at
  most one forced bootstrap and at most two runs of the candidate's chat request to the
  log. When the first reply is obtained and signals an authentication failure, the forced
  bootstrap is called exactly once. When it returns a token, the bridge call is made once
  more, which runs the chat request a second time if the SDK check passes then, and the
  reply of the retry is kept unless it is \<open>None\<close>; when it returns no token, there is no
  retry, the first reply is kept and the request was run once. Nothing more is tried for
  the candidate: when the reply kept is not a success the loop goes on with the next
  candidate, and with a single candidate it ends with no result.
\<close>

theorem reauth_at_most_one_retry:
  fixes w cfg chosen prompt rest s
  defines "argv \<equiv> chat_argv chosen prompt"
  defines "R \<equiv> run_puter_bridge_with_reauth w cfg argv s"
  defines "pre \<equiv> (if puter_token s = [] then bootstrap_puter_token w cfg False s
                   else (Inr None, s))"
  defines "first \<equiv> run_puter_node_bridge w cfg argv True (snd pre)"
  defines "forced \<equiv> bootstrap_puter_token w cfg True (snd first)"
  defines "retry \<equiv> run_puter_node_bridge w cfg argv True (snd forced)"
  shows "\<exists>X. events (snd R) = events s @ X
           \<and> count_list X (BootstrapCall True) \<le> 1
           \<and> count_list X (BridgeRun argv) \<le> 2
           \<and> (bridge_file_exists w \<and> \<not> isl (fst pre) \<and> is_bridge_auth_failure w (fst first) \<longrightarrow>
                count_list X (BootstrapCall True) = 1
                \<and> (\<forall>t. fst forced = Inr t \<longrightarrow>
                      (if str_truthy t
                       then R = (Inr (if fst retry \<noteq> JNull then fst retry else fst first),
                                 snd retry)
                            \<and> count_list X (BridgeRun argv)
                                = (if fst (ensure_puter_sdk w cfg (snd forced)) then 2 else 1)
                       else R = (Inr (fst first), snd forced)
                            \<and> count_list X (BridgeRun argv) = 1)))
           \<and> (\<forall>payload. fst R = Inr payload \<and> \<not> bridge_success payload \<longrightarrow>
                bridge_loop w cfg prompt (chosen # rest) s = bridge_loop w cfg prompt rest (snd R)
                \<and> bridge_loop w cfg prompt [chosen] s = (Inr None, snd R))"
proof -
  have na: "argv \<noteq> [''auth-token'']" "[''auth-token''] \<noteq> argv"
    by (simp_all add: argv_def chat_argv_def)
  obtain A where A: "events (snd pre) = events s @ A" "count_list A (BootstrapCall True) = 0"
      "count_list A (BridgeRun argv) = 0"
  proof (cases "puter_token s = []")
    case True
    obtain X where X: "events (snd (bootstrap_puter_token w cfg False s))
        = events s @ BootstrapCall False # X" "bridge_events [''auth-token''] X"
      using bootstrap_puter_token_events by blast
    show ?thesis
      using that [of "BootstrapCall False # X"] X True na
        bridge_events_counts(1) [OF X(2)] bridge_events_counts(3) [OF X(2)]
      by (simp add: pre_def)
  next
    case False
    then show ?thesis using that [of "[]"] by (simp add: pre_def)
  qed
  obtain B where B: "events (snd first) = events (snd pre) @ B" "bridge_events argv B"
      "fst first \<noteq> JNull \<longrightarrow> count_list B (BridgeRun argv) = 1"
    unfolding first_def using run_puter_node_bridge_events by blast
  obtain C where C: "events (snd forced) = events (snd first) @ BootstrapCall True # C"
      "bridge_events [''auth-token''] C"
    unfolding forced_def using bootstrap_puter_token_events by blast
  obtain D where D: "events (snd retry) = events (snd forced) @ D" "bridge_events argv D"
    unfolding retry_def using run_puter_node_bridge_events by blast
  note cB = bridge_events_counts(1) [OF B(2)] bridge_events_counts(4) [OF B(2)]
  note cC = bridge_events_counts(1) [OF C(2)] bridge_events_counts(3) [OF C(2) na(1)]
  note cD = bridge_events_counts(1) [OF D(2)] bridge_events_counts(4) [OF D(2)]
  have Rdef: "R = (if \<not> bridge_file_exists w then (Inr JNull, s)
       else case fst pre of
         Inl e \<Rightarrow> (Inl e, snd pre)
       | Inr ignored \<Rightarrow>
          (if fst first = JNull \<and> puter_token (snd first) = []
           then (case fst forced of
                   Inl e \<Rightarrow> (Inl e, snd forced)
                 | Inr t \<Rightarrow> if str_truthy t then (Inr (fst retry), snd retry)
                            else (Inr JNull, snd forced))
           else if is_bridge_auth_failure w (fst first)
           then (case fst forced of
                   Inl e \<Rightarrow> (Inl e, snd forced)
                 | Inr t \<Rightarrow>
                     if str_truthy t
                     then (Inr (if fst retry \<noteq> JNull then fst retry else fst first), snd retry)
                     else (Inr (fst first), snd forced))
           else (Inr (fst first), snd first)))"
  proof -
    obtain p0 s1 where p: "pre = (p0, s1)" by (cases pre)
    obtain pl s2 where f: "first = (pl, s2)" by (cases first)
    obtain fo s3 where g: "forced = (fo, s3)" by (cases forced)
    obtain re s4 where h: "retry = (re, s4)" by (cases retry)
    have p': "(if puter_token s = [] then bootstrap_puter_token w cfg False s
               else (Inr None, s)) = (p0, s1)"
      using p by (simp add: pre_def)
    have f': "run_puter_node_bridge w cfg argv True s1 = (pl, s2)"
      using f p by (simp add: first_def)
    have g': "bootstrap_puter_token w cfg True s2 = (fo, s3)"
      using g f by (simp add: forced_def)
    have h': "run_puter_node_bridge w cfg argv True s3 = (re, s4)"
      using h g by (simp add: retry_def)
    show ?thesis
      unfolding R_def run_puter_bridge_with_reauth_def p'
      by (simp add: p f g h f' g' h' split: sum.splits)
  qed
  have loop: "\<forall>payload. fst R = Inr payload \<and> \<not> bridge_success payload \<longrightarrow>
                bridge_loop w cfg prompt (chosen # rest) s = bridge_loop w cfg prompt rest (snd R)
                \<and> bridge_loop w cfg prompt [chosen] s = (Inr None, snd R)"
    by (cases R) (auto simp: R_def argv_def)
  show ?thesis
  proof (cases "bridge_file_exists w")
    case False
    then have "R = (Inr JNull, s)" unfolding Rdef by simp
    then show ?thesis using loop False by (intro exI[of _ "[]"]) simp
  next
    case ex: True
    show ?thesis
    proof (cases "fst pre")
      case (Inl e)
      then have "R = (Inl e, snd pre)" unfolding Rdef using ex by simp
      then show ?thesis using loop Inl A by (intro exI[of _ A]) simp
    next
      case ok: (Inr ignored)
      show ?thesis
      proof (cases "fst first = JNull \<and> puter_token (snd first) = []")
        case True
        then have naf: "\<not> is_bridge_auth_failure w (fst first)" by simp
        have "snd R = snd forced \<or> snd R = snd retry"
          unfolding Rdef using ex ok True by (auto split: sum.splits)
        then show ?thesis
        proof
          assume "snd R = snd forced"
          then show ?thesis using loop naf A B C cB cC
            by (intro exI[of _ "A @ B @ BootstrapCall True # C"]) simp
        next
          assume "snd R = snd retry"
          then show ?thesis using loop naf A B C D cB cC cD
            by (intro exI[of _ "A @ B @ BootstrapCall True # C @ D"]) simp
        qed
      next
        case nn: False
        show ?thesis
        proof (cases "is_bridge_auth_failure w (fst first)")
          case af: True
          then have nz: "fst first \<noteq> JNull" by auto
          with B have b1: "count_list B (BridgeRun argv) = 1" by simp
          show ?thesis
          proof (cases "fst forced")
            case fl: (Inl e)
            then have "R = (Inl e, snd forced)" unfolding Rdef using ex ok nz af by simp
            then show ?thesis using loop ex ok af fl A B C cB cC b1
              by (intro exI[of _ "A @ B @ BootstrapCall True # C"]) simp
          next
            case fr: (Inr t)
            show ?thesis
            proof (cases "str_truthy t")
              case t: True
              then obtain tok where tok: "t = Some tok" "tok \<noteq> []"
                by (cases t) auto
              have "puter_token (snd forced) \<noteq> []"
                using bootstrap_forced_token [of w cfg "snd first" tok "snd forced"] fr tok
                by (cases forced) (simp add: forced_def)
              then obtain D' where D': "events (snd retry) = events (snd forced) @ D'"
                  "count_list D' (BridgeRun argv)
                     = (if fst (ensure_puter_sdk w cfg (snd forced)) then 1 else 0)"
                unfolding retry_def using run_puter_node_bridge_runs by blast
              have d1: "count_list D (BridgeRun argv)
                     = (if fst (ensure_puter_sdk w cfg (snd forced)) then 1 else 0)"
                using D(1) D' by simp
              have "R = (Inr (if fst retry \<noteq> JNull then fst retry else fst first), snd retry)"
                unfolding Rdef using ex ok nz af fr t by simp
              then show ?thesis using loop ex ok af fr t A B C D cB cC cD b1 d1
                by (intro exI[of _ "A @ B @ BootstrapCall True # C @ D"]) simp
            next
              case f: False
              then have "R = (Inr (fst first), snd forced)"
                unfolding Rdef using ex ok nz af fr by simp
              then show ?thesis using loop ex ok af fr f A B C cB cC b1
                by (intro exI[of _ "A @ B @ BootstrapCall True # C"]) simp
            qed
          qed
        next
          case naf: False
          then have "R = (Inr (fst first), snd first)" unfolding Rdef using ex ok nn by auto
          then show ?thesis using loop naf A B cB
            by (intro exI[of _ "A @ B"]) simp
        qed
      qed
    qed
  qed
qed


lemma auth_failure_reply_is_failure:
  "is_bridge_auth_failure w auth_failure_reply" "\<not> bridge_success auth_failure_reply"
  "auth_failure_reply \<noteq> JNull"
  by (simp_all add: is_bridge_auth_failure_def bridge_error_def auth_failure_reply_def dict_get_def
        or_empty_def py_str_def strip_def lstrip_def rstrip_def is_space_def upper_def
        upper_char_def PUTER_AUTH_RETRY_ERRORS_def bridge_success_def)

lemma toy_parse_failure:
  \<open>parse_bridge_output toy_world ''{"ok": false, "error": "MISSING_AUTH_TOKEN"}'' = auth_failure_reply\<close>
  \<open>parse_bridge_output failing_world ''{"ok": false, "error": "MISSING_AUTH_TOKEN"}'' = auth_failure_reply\<close>
  by (simp_all add: parse_bridge_output_def toy_world_def failing_world_def toy_loads_def
        auth_failure_reply_def strip_def lstrip_def rstrip_def is_space_def bridge_candidates_def
        splitlines_def is_linebreak_def endswith_def)

lemma toy_parse_token:
  \<open>parse_bridge_output toy_world
      (''login...'' @ [CHR 0x0A] @ ''{"ok": true, "token": "tok 1"}'' @ [CHR 0x0A])
    = JDict [(''ok'', JBool True), (''token'', JStr ''tok 1'')]\<close>
  by (simp add: parse_bridge_output_def toy_world_def toy_loads_def
        strip_def lstrip_def rstrip_def is_space_def bridge_candidates_def
        splitlines_def is_linebreak_def endswith_def)

lemma toy_run_chat:
  assumes "puter_token S \<noteq> []" "argv \<noteq> [''auth-token'']"
  shows "run_puter_node_bridge toy_world cfg argv True S
           = (auth_failure_reply, log_event (BridgeRun argv) (log_event SdkCheck S))"
  using assms toy_parse_failure(1)
  by (simp add: run_puter_node_bridge_def ensure_puter_sdk_def Let_def)
     (simp add: toy_world_def)

lemma failing_run:
  assumes "puter_token S \<noteq> [] \<or> \<not> rt"
  shows "run_puter_node_bridge failing_world cfg argv rt S
           = (auth_failure_reply, log_event (BridgeRun argv) (log_event SdkCheck S))"
  using assms toy_parse_failure(2)
  by (simp add: run_puter_node_bridge_def ensure_puter_sdk_def Let_def)
     (auto simp add: failing_world_def toy_world_def)

lemma toy_bootstrap_forced:
  assumes "\<not> has_static_key cfg"
  shows "bootstrap_puter_token toy_world cfg True S
           = (Inr (Some ''tok1''),
              (log_event (BridgeRun [''auth-token''])
                 (log_event SdkCheck (log_event (BootstrapCall True) S)))
              \<lparr>environ := (environ S)(''puterAuthToken'' \<mapsto> ''tok1'',
                                       ''PUTER_AUTH_TOKEN'' \<mapsto> ''tok1'')\<rparr>)"
proof -
  have r: "run_puter_node_bridge toy_world cfg [''auth-token''] False
             (log_event (BootstrapCall True) S)
           = (JDict [(''ok'', JBool True), (''token'', JStr ''tok 1'')],
              log_event (BridgeRun [''auth-token''])
                 (log_event SdkCheck (log_event (BootstrapCall True) S)))"
    using toy_parse_token
    by (simp add: run_puter_node_bridge_def ensure_puter_sdk_def Let_def)
       (simp add: toy_world_def)
  have e: "bridge_file_exists toy_world" by (simp add: toy_world_def)
  show ?thesis
    using assms e
    by (simp add: bootstrap_puter_token_def Let_def r dict_get_def set_puter_token_def
          or_empty_def py_str_def join_split_def is_space_def)
qed

lemma failing_bootstrap_forced:
  assumes "\<not> has_static_key cfg"
  shows "bootstrap_puter_token failing_world cfg True S
           = (Inr None, log_event (BridgeRun [''auth-token''])
                 (log_event SdkCheck (log_event (BootstrapCall True) S)))"
proof -
  have e: "bridge_file_exists failing_world" by (simp add: failing_world_def toy_world_def)
  show ?thesis
    using assms e
    by (simp add: bootstrap_puter_token_def Let_def failing_run auth_failure_reply_def dict_get_def)
qed

lemma toy_no_key: "\<not> has_static_key toy_config"
  by (simp add: has_static_key_def toy_config_def)

lemma failing_reauth:
  "run_puter_bridge_with_reauth failing_world toy_config (chat_argv ''claude-opus-4-6'' ''hi'')
     cached_state
   = (Inr auth_failure_reply,
      \<lparr>environ = [''PUTER_AUTH_TOKEN'' \<mapsto> ''tok''], sink = Missing,
       events = [SdkCheck, BridgeRun (chat_argv ''claude-opus-4-6'' ''hi''), BootstrapCall True,
                 SdkCheck, BridgeRun [''auth-token'']]\<rparr>)"
proof -
  have e: "bridge_file_exists failing_world" by (simp add: failing_world_def toy_world_def)
  show ?thesis
    using e cached_token auth_failure_reply_is_failure toy_no_key
    by (simp add: run_puter_bridge_with_reauth_def failing_run failing_bootstrap_forced)
       (simp add: cached_state_def toy_state_def log_event_def)
qed

lemma toy_candidates: "puter_candidates toy_config None = [''claude-opus-4-6'']"
  by (simp add: puter_candidates_def toy_config_def strip_def lstrip_def rstrip_def is_space_def)

text \<open>
  Claim C2, as stated, fails when the forced bootstrap yields no token: with a bridge that
  answers every request with an authentication failure, one dispatch over the single
  candidate calls the forced bootstrap once and runs the chat request once; there is no
  retry.
\<close>

theorem reauth_no_retry_when_bootstrap_fails:
  "call_puter_with_model failing_world toy_config ''hi'' None cached_state
     = (Inr (None, None),
        \<lparr>environ = [''PUTER_AUTH_TOKEN'' \<mapsto> ''tok''], sink = Missing,
         events = [SdkCheck, BridgeRun (chat_argv ''claude-opus-4-6'' ''hi''), BootstrapCall True,
                   SdkCheck, BridgeRun [''auth-token'']]\<rparr>)
   \<and> is_bridge_auth_failure failing_world auth_failure_reply
   \<and> count_list [SdkCheck, BridgeRun (chat_argv ''claude-opus-4-6'' ''hi''), BootstrapCall True,
                  SdkCheck, BridgeRun [''auth-token'']]
        (BridgeRun (chat_argv ''claude-opus-4-6'' ''hi'')) = 1"
  using auth_failure_reply_is_failure toy_no_key
  by (simp add: call_puter_with_model_def dispatch_def toy_candidates failing_reauth)
     (simp add: chat_argv_def)

lemma toy_reauth:
  "run_puter_bridge_with_reauth toy_world toy_config (chat_argv ''claude-opus-4-6'' ''hi'')
     cached_state
   = (Inr auth_failure_reply,
      \<lparr>environ = [''PUTER_AUTH_TOKEN'' \<mapsto> ''tok'', ''puterAuthToken'' \<mapsto> ''tok1'',
                  ''PUTER_AUTH_TOKEN'' \<mapsto> ''tok1''],
       sink = Missing,
       events = [SdkCheck, BridgeRun (chat_argv ''claude-opus-4-6'' ''hi''), BootstrapCall True,
                 SdkCheck, BridgeRun [''auth-token''],
                 SdkCheck, BridgeRun (chat_argv ''claude-opus-4-6'' ''hi'')]\<rparr>)"
proof -
  have e: "bridge_file_exists toy_world" by (simp add: toy_world_def)
  have na: "chat_argv ''claude-opus-4-6'' ''hi'' \<noteq> [''auth-token'']" by (simp add: chat_argv_def)
  have t2: "puter_token
     ((log_event (BridgeRun [''auth-token''])
                 (log_event SdkCheck (log_event (BootstrapCall True)
        (log_event (BridgeRun (chat_argv ''claude-opus-4-6'' ''hi'')) (log_event SdkCheck cached_state)))))
              \<lparr>environ := (environ cached_state)(''puterAuthToken'' \<mapsto> ''tok1'',
                                       ''PUTER_AUTH_TOKEN'' \<mapsto> ''tok1'')\<rparr>) \<noteq> []"
    by (simp add: puter_token_def join_split_def is_space_def)
  show ?thesis
    using e cached_token auth_failure_reply_is_failure toy_no_key na t2
    by (simp add: run_puter_bridge_with_reauth_def toy_run_chat toy_bootstrap_forced)
       (simp add: cached_state_def toy_state_def log_event_def)
qed

theorem reauth_at_most_one_retry_witness:
  "bridge_file_exists toy_world
   \<and> is_bridge_auth_failure toy_world
         (fst (run_puter_node_bridge toy_world toy_config (chat_argv ''claude-opus-4-6'' ''hi'')
                 True cached_state))
   \<and> fst (bootstrap_puter_token toy_world toy_config True
             (snd (run_puter_node_bridge toy_world toy_config (chat_argv ''claude-opus-4-6'' ''hi'')
                     True cached_state)))
       = Inr (Some ''tok1'')
   \<and> bridge_loop toy_world toy_config ''hi'' [''claude-opus-4-6''] cached_state
   = (Inr None,
      \<lparr>environ = [''PUTER_AUTH_TOKEN'' \<mapsto> ''tok'', ''puterAuthToken'' \<mapsto> ''tok1'',
                  ''PUTER_AUTH_TOKEN'' \<mapsto> ''tok1''],
       sink = Missing,
       events = [SdkCheck, BridgeRun (chat_argv ''claude-opus-4-6'' ''hi''), BootstrapCall True,
                 SdkCheck, BridgeRun [''auth-token''],
                 SdkCheck, BridgeRun (chat_argv ''claude-opus-4-6'' ''hi'')]\<rparr>)"
proof -
  have na: "chat_argv ''claude-opus-4-6'' ''hi'' \<noteq> [''auth-token'']" by (simp add: chat_argv_def)
  have t: "puter_token cached_state \<noteq> []" using cached_token by simp
  have e: "bridge_file_exists toy_world" by (simp add: toy_world_def)
  show ?thesis
    using reauth_at_most_one_retry [of toy_world toy_config "''claude-opus-4-6''" "''hi''" cached_state "[]"]
      auth_failure_reply_is_failure e
    by (simp add: toy_reauth toy_run_chat [OF t na] toy_bootstrap_forced [OF toy_no_key])
qed

section \<open>The dispatcher\<close>


lemma adds_no_keyed_refl [simp]: "adds_no_keyed s s"
  by (simp add: adds_no_keyed_def)

lemma adds_no_keyed_trans: "adds_no_keyed s s1 \<Longrightarrow> adds_no_keyed s1 s2 \<Longrightarrow> adds_no_keyed s s2"
  by (auto simp: adds_no_keyed_def)

lemma run_puter_node_bridge_no_keyed:
  "adds_no_keyed s (snd (run_puter_node_bridge w cfg argv rt s))"
  using run_puter_node_bridge_events [of w cfg argv rt s] bridge_events_counts(5)
  by (auto simp: adds_no_keyed_def)

lemma bootstrap_puter_token_no_keyed:
  "adds_no_keyed s (snd (bootstrap_puter_token w cfg force s))"
  using bootstrap_puter_token_events [of w cfg force s] bridge_events_counts(5)
  by (auto simp: adds_no_keyed_def)

lemma run_puter_bridge_with_reauth_states:
  fixes w cfg argv s
  defines "pre \<equiv> (if puter_token s = [] then bootstrap_puter_token w cfg False s
                   else (Inr None, s))"
  defines "first \<equiv> run_puter_node_bridge w cfg argv True (snd pre)"
  defines "forced \<equiv> bootstrap_puter_token w cfg True (snd first)"
  defines "retry \<equiv> run_puter_node_bridge w cfg argv True (snd forced)"
  shows "snd (run_puter_bridge_with_reauth w cfg argv s)
           \<in> {s, snd pre, snd first, snd forced, snd retry}"
    and "fst (run_puter_bridge_with_reauth w cfg argv s)
           \<in> {Inr JNull, Inr (fst first), Inr (fst retry)} \<union> range Inl"
proof -
  obtain p0 s1 where p: "pre = (p0, s1)" by (cases pre)
  obtain pl s2 where f: "first = (pl, s2)" by (cases first)
  obtain fo s3 where g: "forced = (fo, s3)" by (cases forced)
  obtain re s4 where h: "retry = (re, s4)" by (cases retry)
  have p': "(if puter_token s = [] then bootstrap_puter_token w cfg False s
             else (Inr None, s)) = (p0, s1)"
    using p by (simp add: pre_def)
  have f': "run_puter_node_bridge w cfg argv True s1 = (pl, s2)"
    using f p by (simp add: first_def)
  have g': "bootstrap_puter_token w cfg True s2 = (fo, s3)"
    using g f by (simp add: forced_def)
  have h': "run_puter_node_bridge w cfg argv True s3 = (re, s4)"
    using h g by (simp add: retry_def)
  show "snd (run_puter_bridge_with_reauth w cfg argv s)
           \<in> {s, snd pre, snd first, snd forced, snd retry}"
    unfolding run_puter_bridge_with_reauth_def p'
    by (simp add: p f g h f' g' h' split: sum.splits)
  show "fst (run_puter_bridge_with_reauth w cfg argv s)
           \<in> {Inr JNull, Inr (fst first), Inr (fst retry)} \<union> range Inl"
    unfolding run_puter_bridge_with_reauth_def p'
    by (simp add: p f g h f' g' h' split: sum.splits)
qed

lemma run_puter_bridge_with_reauth_no_keyed:
  "adds_no_keyed s (snd (run_puter_bridge_with_reauth w cfg argv s))"
proof -
  let ?pre = "(if puter_token s = [] then bootstrap_puter_token w cfg False s else (Inr None, s))"
  let ?first = "run_puter_node_bridge w cfg argv True (snd ?pre)"
  let ?forced = "bootstrap_puter_token w cfg True (snd ?first)"
  let ?retry = "run_puter_node_bridge w cfg argv True (snd ?forced)"
  have 1: "adds_no_keyed s (snd ?pre)"
    using bootstrap_puter_token_no_keyed by simp
  have 2: "adds_no_keyed s (snd ?first)"
    using adds_no_keyed_trans [OF 1 run_puter_node_bridge_no_keyed] .
  have 3: "adds_no_keyed s (snd ?forced)"
    using adds_no_keyed_trans [OF 2 bootstrap_puter_token_no_keyed] .
  have 4: "adds_no_keyed s (snd ?retry)"
    using adds_no_keyed_trans [OF 3 run_puter_node_bridge_no_keyed] .
  show ?thesis
    using run_puter_bridge_with_reauth_states(1) [of w cfg argv s] 1 2 3 4 by auto
qed

lemma bridge_loop_no_keyed:
  "adds_no_keyed s (snd (bridge_loop w cfg prompt cands s))"
proof (induction cands arbitrary: s)
  case Nil
  show ?case by simp
next
  case (Cons chosen rest)
  let ?R = "run_puter_bridge_with_reauth w cfg (chat_argv chosen prompt) s"
  have r: "adds_no_keyed s (snd ?R)" by (rule run_puter_bridge_with_reauth_no_keyed)
  obtain x s1 where R: "?R = (x, s1)" by (cases ?R)
  show ?case
  proof (cases x)
    case (Inl e)
    then show ?thesis using r R by simp
  next
    case (Inr payload)
    show ?thesis
    proof (cases "bridge_success payload")
      case True
      then show ?thesis using r R Inr by simp
    next
      case False
      then have "bridge_loop w cfg prompt (chosen # rest) s = bridge_loop w cfg prompt rest s1"
        using R Inr by simp
      then show ?thesis using adds_no_keyed_trans [OF _ Cons.IH [of s1]] r R by simp
    qed
  qed
qed

lemma keyed_loop_events:
  "\<exists>k\<le>length cands.
      events (snd (keyed_loop w prompt cands s))
        = events s @ map (\<lambda>m. KeyedPost m prompt) (take k cands)
      \<and> (case fst (keyed_loop w prompt cands s) of
            None \<Rightarrow> k = length cands
          | Some (content, used) \<Rightarrow>
              0 < k \<and> used = cands ! (k - 1) \<and> content \<noteq> []
              \<and> keyed_content w
                   (keyed_post w (events s @ map (\<lambda>m. KeyedPost m prompt) (take (k - 1) cands))
                      used prompt) = Some content)"
proof (induction cands arbitrary: s)
  case Nil
  show ?case by simp
next
  case (Cons chosen rest)
  let ?s1 = "log_event (KeyedPost chosen prompt) s"
  show ?case
  proof (cases "str_truthy (keyed_content w (keyed_post w (events s) chosen prompt))")
    case True
    then obtain content where c: "keyed_content w (keyed_post w (events s) chosen prompt) = Some content"
      "content \<noteq> []"
      by (cases "keyed_content w (keyed_post w (events s) chosen prompt)") auto
    then have "keyed_loop w prompt (chosen # rest) s = (Some (content, chosen), ?s1)"
      by (simp add: Let_def)
    then show ?thesis using c by (intro exI[of _ 1]) simp
  next
    case False
    then have e: "keyed_loop w prompt (chosen # rest) s = keyed_loop w prompt rest ?s1"
      by (auto simp: Let_def split: option.splits)
    from Cons.IH [of ?s1] obtain k where k: "k \<le> length rest"
      "events (snd (keyed_loop w prompt rest ?s1))
        = events ?s1 @ map (\<lambda>m. KeyedPost m prompt) (take k rest)"
      "(case fst (keyed_loop w prompt rest ?s1) of
            None \<Rightarrow> k = length rest
          | Some (content, used) \<Rightarrow>
              0 < k \<and> used = rest ! (k - 1) \<and> content \<noteq> []
              \<and> keyed_content w
                   (keyed_post w (events ?s1 @ map (\<lambda>m. KeyedPost m prompt) (take (k - 1) rest))
                      used prompt) = Some content)"
      by blast
    show ?thesis
      using k unfolding e
      by (intro exI[of _ "Suc k"]) (auto split: option.splits simp: nth_Cons' take_Cons')
  qed
qed


text \<open>With a static key configured the bootstrap stores no token, and nothing raises.\<close>

lemma bootstrap_puter_token_static_key:
  "has_static_key cfg \<Longrightarrow>
     bootstrap_puter_token w cfg force s = (Inr None, log_event (BootstrapCall force) s)"
  by (simp add: bootstrap_puter_token_def Let_def)

lemma run_puter_bridge_with_reauth_static_key:
  assumes "has_static_key cfg"
  shows "fst (run_puter_bridge_with_reauth w cfg argv s) \<notin> range Inl"
  unfolding run_puter_bridge_with_reauth_def
  by (auto simp: bootstrap_puter_token_static_key [OF assms] case_prod_beta)

lemma keyed_history_Cons:
  "keyed_history prompt cs (log_event (KeyedPost c prompt) s) i
     = keyed_history prompt (c # cs) s (Suc i)"
  by (simp add: keyed_history_def log_event_def)

lemma keyed_answer_Cons:
  "keyed_answer w prompt cs (log_event (KeyedPost c prompt) s) i
     = keyed_answer w prompt (c # cs) s (Suc i)"
  by (simp add: keyed_answer_def keyed_history_Cons)

lemma keyed_answer_0:
  "keyed_answer w prompt (c # cs) s 0 = keyed_content w (keyed_post w (events s) c prompt)"
  by (simp add: keyed_answer_def keyed_history_def)

lemma keyed_state_Cons:
  "(log_event (KeyedPost c prompt) s)\<lparr>events := keyed_history prompt (c # cs) s (Suc i)\<rparr>
     = s\<lparr>events := keyed_history prompt (c # cs) s (Suc i)\<rparr>"
  by (simp add: log_event_def)

lemma keyed_loop_first_success:
  assumes "k < length cands"
    and "\<forall>i<k. \<not> str_truthy (keyed_answer w prompt cands s i)"
    and "keyed_answer w prompt cands s k = Some content" "content \<noteq> []"
  shows "keyed_loop w prompt cands s
           = (Some (content, cands ! k), s\<lparr>events := keyed_history prompt cands s (Suc k)\<rparr>)"
  using assms
proof (induction cands arbitrary: s k)
  case Nil
  then show ?case by simp
next
  case (Cons c cs)
  let ?s1 = "log_event (KeyedPost c prompt) s"
  show ?case
  proof (cases k)
    case 0
    then have "keyed_content w (keyed_post w (events s) c prompt) = Some content"
      using Cons.prems(3) by (simp add: keyed_answer_0)
    then show ?thesis
      using 0 Cons.prems(4) by (simp add: Let_def keyed_history_def log_event_def)
  next
    case (Suc k')
    have "\<not> str_truthy (keyed_answer w prompt (c # cs) s 0)"
      using Cons.prems(2) Suc by simp
    then have "\<not> str_truthy (keyed_content w (keyed_post w (events s) c prompt))"
      by (simp add: keyed_answer_0)
    then have e: "keyed_loop w prompt (c # cs) s = keyed_loop w prompt cs ?s1"
      by (auto simp: Let_def split: option.splits)
    have 1: "k' < length cs" using Cons.prems(1) Suc by simp
    have 2: "\<forall>i<k'. \<not> str_truthy (keyed_answer w prompt cs ?s1 i)"
      using Cons.prems(2) Suc by (simp add: keyed_answer_Cons)
    have 3: "keyed_answer w prompt cs ?s1 k' = Some content"
      using Cons.prems(3) Suc by (simp add: keyed_answer_Cons)
    show ?thesis
      unfolding e Cons.IH [OF 1 2 3 Cons.prems(4)]
      by (simp add: Suc keyed_history_Cons keyed_state_Cons)
  qed
qed

lemma keyed_loop_none_succeeds:
  assumes "\<forall>i<length cands. \<not> str_truthy (keyed_answer w prompt cands s i)"
  shows "keyed_loop w prompt cands s
           = (None, s\<lparr>events := keyed_history prompt cands s (length cands)\<rparr>)"
  using assms
proof (induction cands arbitrary: s)
  case Nil
  show ?case by (simp add: keyed_history_def)
next
  case (Cons c cs)
  let ?s1 = "log_event (KeyedPost c prompt) s"
  have "\<not> str_truthy (keyed_answer w prompt (c # cs) s 0)"
    using Cons.prems by blast
  then have "\<not> str_truthy (keyed_content w (keyed_post w (events s) c prompt))"
    by (simp add: keyed_answer_0)
  then have e: "keyed_loop w prompt (c # cs) s = keyed_loop w prompt cs ?s1"
    by (auto simp: Let_def split: option.splits)
  have 2: "\<forall>i<length cs. \<not> str_truthy (keyed_answer w prompt cs ?s1 i)"
    using Cons.prems by (auto simp: keyed_answer_Cons)
  show ?case
    unfolding e Cons.IH [OF 2]
    by (simp add: keyed_history_Cons keyed_state_Cons)
qed

lemma bridge_attempt_0:
  "bridge_attempt w cfg prompt (c # cs) s 0
     = run_puter_bridge_with_reauth w cfg (chat_argv c prompt) s"
  by (simp add: bridge_attempt_def bridge_state_def)

lemma bridge_state_Cons:
  "bridge_state w cfg prompt (c # cs) s
     = bridge_state w cfg prompt cs (snd (run_puter_bridge_with_reauth w cfg (chat_argv c prompt) s))"
  by (simp add: bridge_state_def)

lemma bridge_attempt_Suc:
  "bridge_attempt w cfg prompt (c # cs) s (Suc i)
     = bridge_attempt w cfg prompt cs
         (snd (run_puter_bridge_with_reauth w cfg (chat_argv c prompt) s)) i"
  by (simp add: bridge_attempt_def bridge_state_Cons)

lemma bridge_state_snoc:
  "j < length cands \<Longrightarrow>
     bridge_state w cfg prompt (take (Suc j) cands) s = snd (bridge_attempt w cfg prompt cands s j)"
  by (simp add: bridge_attempt_def bridge_state_def take_Suc_conv_app_nth)

lemma bridge_loop_step:
  assumes "attempt_fails (run_puter_bridge_with_reauth w cfg (chat_argv c prompt) s)"
  shows "bridge_loop w cfg prompt (c # cs) s
           = bridge_loop w cfg prompt cs
               (snd (run_puter_bridge_with_reauth w cfg (chat_argv c prompt) s))"
  using assms
  by (cases "run_puter_bridge_with_reauth w cfg (chat_argv c prompt) s")
     (auto simp: attempt_fails_def split: sum.splits)

lemma bridge_loop_first_success:
  assumes "j < length cands"
    and "\<forall>i<j. attempt_fails (bridge_attempt w cfg prompt cands s i)"
    and "fst (bridge_attempt w cfg prompt cands s j) = Inr payload" "bridge_success payload"
  shows "bridge_loop w cfg prompt cands s
           = (Inr (Some (bridge_reply w (cands ! j) payload)),
              snd (bridge_attempt w cfg prompt cands s j))"
  using assms
proof (induction cands arbitrary: s j)
  case Nil
  then show ?case by simp
next
  case (Cons c cs)
  let ?R = "run_puter_bridge_with_reauth w cfg (chat_argv c prompt) s"
  show ?case
  proof (cases j)
    case 0
    then have "fst ?R = Inr payload" using Cons.prems(3) by (simp add: bridge_attempt_0)
    then show ?thesis
      using 0 Cons.prems(4) by (cases ?R) (simp add: bridge_attempt_0)
  next
    case (Suc j')
    have "attempt_fails (bridge_attempt w cfg prompt (c # cs) s 0)"
      using Cons.prems(2) Suc by simp
    then have e: "bridge_loop w cfg prompt (c # cs) s = bridge_loop w cfg prompt cs (snd ?R)"
      using bridge_loop_step by (simp add: bridge_attempt_0)
    have 1: "j' < length cs" using Cons.prems(1) Suc by simp
    have 2: "\<forall>i<j'. attempt_fails (bridge_attempt w cfg prompt cs (snd ?R) i)"
      using Cons.prems(2) Suc by (auto simp: bridge_attempt_Suc [symmetric])
    have 3: "fst (bridge_attempt w cfg prompt cs (snd ?R) j') = Inr payload"
      using Cons.prems(3) Suc by (simp add: bridge_attempt_Suc)
    show ?thesis
      unfolding e Cons.IH [OF 1 2 3 Cons.prems(4)]
      by (simp add: Suc bridge_attempt_Suc)
  qed
qed

lemma bridge_loop_none_succeeds:
  assumes "\<forall>i<length cands. attempt_fails (bridge_attempt w cfg prompt cands s i)"
  shows "bridge_loop w cfg prompt cands s = (Inr None, bridge_state w cfg prompt cands s)"
  using assms
proof (induction cands arbitrary: s)
  case Nil
  show ?case by (simp add: bridge_state_def)
next
  case (Cons c cs)
  let ?R = "run_puter_bridge_with_reauth w cfg (chat_argv c prompt) s"
  have "attempt_fails (bridge_attempt w cfg prompt (c # cs) s 0)"
    using Cons.prems by blast
  then have e: "bridge_loop w cfg prompt (c # cs) s = bridge_loop w cfg prompt cs (snd ?R)"
    using bridge_loop_step by (simp add: bridge_attempt_0)
  have 2: "\<forall>i<length cs. attempt_fails (bridge_attempt w cfg prompt cs (snd ?R) i)"
    using Cons.prems by (auto simp: bridge_attempt_Suc [symmetric])
  show ?case
    unfolding e Cons.IH [OF 2] by (simp add: bridge_state_Cons)
qed

lemma bridge_events_runs:
  assumes "bridge_events argv X" "BridgeRun a \<in> set X"
  shows "a = argv"
  using assms unfolding bridge_events_def by auto

lemma run_puter_bridge_with_reauth_static_runs:
  assumes "has_static_key cfg"
  shows "\<exists>X. events (snd (run_puter_bridge_with_reauth w cfg argv s)) = events s @ X
           \<and> (\<forall>a. BridgeRun a \<in> set X \<longrightarrow> a = argv)
           \<and> list_all (\<lambda>e. \<not> is_keyed_call e) X"
proof -
  let ?pre = "(if puter_token s = [] then bootstrap_puter_token w cfg False s else (Inr None, s))"
  let ?first = "run_puter_node_bridge w cfg argv True (snd ?pre)"
  let ?forced = "bootstrap_puter_token w cfg True (snd ?first)"
  let ?retry = "run_puter_node_bridge w cfg argv True (snd ?forced)"
  let ?P = "\<lambda>X. (\<forall>a. BridgeRun a \<in> set X \<longrightarrow> a = argv) \<and> list_all (\<lambda>e. \<not> is_keyed_call e) X"
  have b: "\<And>force S. bootstrap_puter_token w cfg force S = (Inr None, log_event (BootstrapCall force) S)"
    using assms by (simp add: bootstrap_puter_token_def Let_def)
  obtain A where A: "events (snd ?pre) = events s @ A" "?P A"
  proof (cases "puter_token s = []")
    case True
    then show ?thesis using that [of "[BootstrapCall False]"] by (simp add: b log_event_def)
  next
    case False
    then show ?thesis using that [of "[]"] by simp
  qed
  obtain B where B: "events (snd ?first) = events (snd ?pre) @ B" "bridge_events argv B"
    using run_puter_node_bridge_events by blast
  have C: "events (snd ?forced) = events (snd ?first) @ [BootstrapCall True]"
    by (simp add: b log_event_def)
  obtain D where D: "events (snd ?retry) = events (snd ?forced) @ D" "bridge_events argv D"
    using run_puter_node_bridge_events by blast
  have PB: "?P B" using bridge_events_runs [OF B(2)] bridge_events_counts(5) [OF B(2)] by blast
  have PD: "?P D" using bridge_events_runs [OF D(2)] bridge_events_counts(5) [OF D(2)] by blast
  have 0: "events s = events s @ [] \<and> ?P []" by simp
  have 1: "events (snd ?pre) = events s @ A \<and> ?P A" using A by simp
  have 2: "events (snd ?first) = events s @ (A @ B) \<and> ?P (A @ B)" using A B PB by auto
  have 3: "events (snd ?forced) = events s @ (A @ B @ [BootstrapCall True])
           \<and> ?P (A @ B @ [BootstrapCall True])"
    using A B C PB by auto
  have 4: "events (snd ?retry) = events s @ (A @ B @ [BootstrapCall True] @ D)
           \<and> ?P (A @ B @ [BootstrapCall True] @ D)"
    using A B C D PB PD by auto
  from run_puter_bridge_with_reauth_states(1) [of w cfg argv s]
  consider "snd (run_puter_bridge_with_reauth w cfg argv s) = s"
    | "snd (run_puter_bridge_with_reauth w cfg argv s) = snd ?pre"
    | "snd (run_puter_bridge_with_reauth w cfg argv s) = snd ?first"
    | "snd (run_puter_bridge_with_reauth w cfg argv s) = snd ?forced"
    | "snd (run_puter_bridge_with_reauth w cfg argv s) = snd ?retry"
    by auto
  then show ?thesis
  proof cases
    case 1
    then show ?thesis using 0 by (intro exI[of _ "[]"]) simp
  next
    case 2
    then show ?thesis using 1 by (intro exI[of _ A]) simp
  next
    case 3
    then show ?thesis using 2 by (intro exI[of _ "A @ B"]) simp
  next
    case 4
    then show ?thesis using 3 by (intro exI[of _ "A @ B @ [BootstrapCall True]"]) simp
  next
    case 5
    then show ?thesis using 4 by (intro exI[of _ "A @ B @ [BootstrapCall True] @ D"]) simp
  qed
qed

text \<open>
  Claim C1, amended. With a static key configured the dispatcher first makes the keyed
  call for each candidate in order. The first candidate whose keyed call yields content
  ends the dispatch: that content and that candidate are returned, the log holds the keyed
  calls up to that candidate and nothing else, so no later candidate and no bridge call is
  tried. Only when the keyed calls of all candidates have failed does the bridge loop run,
  over the candidates in order again: the attempt for a candidate is made when the
  attempts for all candidates before it have failed, it returns a reply or \<open>None\<close>,
  it runs no chat request but that candidate's and makes no keyed call, the first attempt
  that succeeds ends the dispatch with its reply, and when all attempts fail the result is
  \<open>None\<close>.
\<close>

theorem dispatch_keyed_before_bridge:
  fixes w cfg prompt cands s
  defines "s0 \<equiv> s\<lparr>events := keyed_history prompt cands s (length cands)\<rparr>"
  assumes "has_static_key cfg"
  shows "(\<forall>k<length cands.
            (\<forall>i<k. \<not> str_truthy (keyed_answer w prompt cands s i))
            \<and> str_truthy (keyed_answer w prompt cands s k) \<longrightarrow>
            (\<exists>content. keyed_answer w prompt cands s k = Some content
               \<and> dispatch w cfg prompt cands s
                   = (Inr (Some (content, cands ! k)),
                      s\<lparr>events := keyed_history prompt cands s (Suc k)\<rparr>)))
       \<and> ((\<forall>i<length cands. \<not> str_truthy (keyed_answer w prompt cands s i)) \<longrightarrow>
            dispatch w cfg prompt cands s = bridge_loop w cfg prompt cands s0
            \<and> adds_no_keyed s0 (snd (dispatch w cfg prompt cands s))
            \<and> (\<forall>j<length cands.
                  (\<forall>i<j. attempt_fails (bridge_attempt w cfg prompt cands s0 i)) \<longrightarrow>
                  (\<exists>X. events (snd (bridge_attempt w cfg prompt cands s0 j))
                          = events (bridge_state w cfg prompt (take j cands) s0) @ X
                        \<and> (\<forall>a. BridgeRun a \<in> set X \<longrightarrow> a = chat_argv (cands ! j) prompt))
                  \<and> bridge_state w cfg prompt (take (Suc j) cands) s0
                      = snd (bridge_attempt w cfg prompt cands s0 j)
                  \<and> \<not> isl (fst (bridge_attempt w cfg prompt cands s0 j))
                  \<and> (\<forall>payload. fst (bridge_attempt w cfg prompt cands s0 j) = Inr payload
                         \<and> bridge_success payload \<longrightarrow>
                       dispatch w cfg prompt cands s
                         = (Inr (Some (bridge_reply w (cands ! j) payload)),
                            snd (bridge_attempt w cfg prompt cands s0 j))))
            \<and> ((\<forall>i<length cands. attempt_fails (bridge_attempt w cfg prompt cands s0 i)) \<longrightarrow>
                 dispatch w cfg prompt cands s
                   = (Inr None, bridge_state w cfg prompt cands s0)))"
proof (intro conjI allI impI)
  fix k
  assume k: "k < length cands"
    and h: "(\<forall>i<k. \<not> str_truthy (keyed_answer w prompt cands s i))
            \<and> str_truthy (keyed_answer w prompt cands s k)"
  then obtain content where c: "keyed_answer w prompt cands s k = Some content" "content \<noteq> []"
    by (cases "keyed_answer w prompt cands s k") auto
  from h have f: "\<forall>i<k. \<not> str_truthy (keyed_answer w prompt cands s i)" by blast
  show "\<exists>content. keyed_answer w prompt cands s k = Some content
               \<and> dispatch w cfg prompt cands s
                   = (Inr (Some (content, cands ! k)),
                      s\<lparr>events := keyed_history prompt cands s (Suc k)\<rparr>)"
    using c assms(2) keyed_loop_first_success [OF k f c]
    by (intro exI[of _ content]) (simp add: dispatch_def)
next
  assume a: "\<forall>i<length cands. \<not> str_truthy (keyed_answer w prompt cands s i)"
  show d: "dispatch w cfg prompt cands s = bridge_loop w cfg prompt cands s0"
    using assms(2) keyed_loop_none_succeeds [OF a] by (simp add: dispatch_def s0_def)
  show "adds_no_keyed s0 (snd (dispatch w cfg prompt cands s))"
    unfolding d by (rule bridge_loop_no_keyed)
  show "dispatch w cfg prompt cands s = (Inr None, bridge_state w cfg prompt cands s0)"
    if "\<forall>i<length cands. attempt_fails (bridge_attempt w cfg prompt cands s0 i)"
    unfolding d using that by (rule bridge_loop_none_succeeds)
  fix j
  assume j: "j < length cands"
    and f: "\<forall>i<j. attempt_fails (bridge_attempt w cfg prompt cands s0 i)"
  show "\<exists>X. events (snd (bridge_attempt w cfg prompt cands s0 j))
                          = events (bridge_state w cfg prompt (take j cands) s0) @ X
                        \<and> (\<forall>a. BridgeRun a \<in> set X \<longrightarrow> a = chat_argv (cands ! j) prompt)"
    using run_puter_bridge_with_reauth_static_runs [OF assms(2), of w "chat_argv (cands ! j) prompt"
        "bridge_state w cfg prompt (take j cands) s0"]
    unfolding bridge_attempt_def by blast
  show "bridge_state w cfg prompt (take (Suc j) cands) s0
                      = snd (bridge_attempt w cfg prompt cands s0 j)"
    using j by (rule bridge_state_snoc)
  show "\<not> isl (fst (bridge_attempt w cfg prompt cands s0 j))"
    using run_puter_bridge_with_reauth_static_key [OF assms(2), of w "chat_argv (cands ! j) prompt"
        "bridge_state w cfg prompt (take j cands) s0"]
    unfolding bridge_attempt_def
    by (cases "fst (run_puter_bridge_with_reauth w cfg (chat_argv (cands ! j) prompt)
                      (bridge_state w cfg prompt (take j cands) s0))") auto
  fix payload
  assume "fst (bridge_attempt w cfg prompt cands s0 j) = Inr payload \<and> bridge_success payload"
  then show "dispatch w cfg prompt cands s
                         = (Inr (Some (bridge_reply w (cands ! j) payload)),
                            snd (bridge_attempt w cfg prompt cands s0 j))"
    unfolding d using bridge_loop_first_success [OF j f] by blast
qed

lemma keyed_no_key: "has_static_key keyed_config"
  by (simp add: has_static_key_def keyed_config_def toy_config_def)

lemma keyed_candidates:
  "puter_candidates keyed_config (Some ''gpt-4o'') = [''gpt-4o'', ''claude-opus-4-6'']"
  by (simp add: puter_candidates_def keyed_config_def toy_config_def strip_def lstrip_def
        rstrip_def is_space_def)

lemma toy_keyed_loop:
  "keyed_loop toy_world prompt cands S
     = (None, S\<lparr>events := events S @ map (\<lambda>m. KeyedPost m prompt) cands\<rparr>)"
proof (induction cands arbitrary: S)
  case Nil
  show ?case by simp
next
  case (Cons c cs)
  have "keyed_content toy_world (keyed_post toy_world (events S) c prompt) = None"
    by (simp add: keyed_content_def toy_world_def)
  then show ?case
    by (simp add: Let_def Cons.IH log_event_def)
qed

lemma keyed_reauth:
  assumes "puter_token S \<noteq> []" "argv \<noteq> [''auth-token'']"
  shows "run_puter_bridge_with_reauth toy_world keyed_config argv S
           = (Inr auth_failure_reply,
              log_event (BootstrapCall True) (log_event (BridgeRun argv) (log_event SdkCheck S)))"
proof -
  have e: "bridge_file_exists toy_world" by (simp add: toy_world_def)
  have b: "\<And>S'. bootstrap_puter_token toy_world keyed_config True S'
             = (Inr None, log_event (BootstrapCall True) S')"
    using keyed_no_key by (simp add: bootstrap_puter_token_def Let_def)
  show ?thesis
    using e assms auth_failure_reply_is_failure
    by (simp add: run_puter_bridge_with_reauth_def toy_run_chat b)
qed

lemma keyed_bridge_loop:
  assumes "puter_token S \<noteq> []"
  shows "bridge_loop toy_world keyed_config ''hi'' [c] S
     = (Inr None, log_event (BootstrapCall True)
                (log_event (BridgeRun (chat_argv c ''hi'')) (log_event SdkCheck S)))"
proof -
  have na: "chat_argv c ''hi'' \<noteq> [''auth-token'']" by (simp add: chat_argv_def)
  show ?thesis
    using auth_failure_reply_is_failure by (simp add: keyed_reauth [OF assms na])
qed

lemma puter_token_events_update [simp]: "puter_token (S\<lparr>events := X\<rparr>) = puter_token S"
  by (simp add: puter_token_def)

lemma keyed_bridge_step:
  assumes "puter_token S \<noteq> []"
  shows "bridge_loop toy_world keyed_config ''hi'' (c # rest) S
        = bridge_loop toy_world keyed_config ''hi'' rest
            (log_event (BootstrapCall True)
                (log_event (BridgeRun (chat_argv c ''hi'')) (log_event SdkCheck S)))"
proof -
  have na: "chat_argv c ''hi'' \<noteq> [''auth-token'']" by (simp add: chat_argv_def)
  show ?thesis
    using auth_failure_reply_is_failure by (simp add: keyed_reauth [OF assms na])
qed

text \<open>
  Claim C1, as stated, fails with two candidates: the code makes the keyed call of the
  second candidate before the bridge call of the first, where the order of the claim
  (\<open>spec_dispatch\<close>) has the bridge call of the first candidate before it.
\<close>

theorem dispatch_not_interleaved:
  "events (snd (call_puter_with_model toy_world keyed_config ''hi'' (Some ''gpt-4o'') cached_state))
     = [KeyedPost ''gpt-4o'' ''hi'', KeyedPost ''claude-opus-4-6'' ''hi'',
        SdkCheck, BridgeRun (chat_argv ''gpt-4o'' ''hi''), BootstrapCall True,
        SdkCheck, BridgeRun (chat_argv ''claude-opus-4-6'' ''hi''), BootstrapCall True]
   \<and> events (snd (spec_dispatch toy_world keyed_config ''hi'' [''gpt-4o'', ''claude-opus-4-6'']
                    cached_state))
     = [KeyedPost ''gpt-4o'' ''hi'',
        SdkCheck, BridgeRun (chat_argv ''gpt-4o'' ''hi''), BootstrapCall True,
        KeyedPost ''claude-opus-4-6'' ''hi'',
        SdkCheck, BridgeRun (chat_argv ''claude-opus-4-6'' ''hi''), BootstrapCall True]"
proof -
  have e: "events cached_state = []" by (simp add: cached_state_def toy_state_def)
  have a: "events (snd (call_puter_with_model toy_world keyed_config ''hi'' (Some ''gpt-4o'')
                          cached_state))
     = [KeyedPost ''gpt-4o'' ''hi'', KeyedPost ''claude-opus-4-6'' ''hi'',
        SdkCheck, BridgeRun (chat_argv ''gpt-4o'' ''hi''), BootstrapCall True,
        SdkCheck, BridgeRun (chat_argv ''claude-opus-4-6'' ''hi''), BootstrapCall True]"
    using keyed_no_key cached_token e
    by (simp add: call_puter_with_model_def dispatch_def keyed_candidates toy_keyed_loop
          keyed_bridge_step
          del: keyed_loop.simps bridge_loop.simps(2))
  have b: "events (snd (spec_dispatch toy_world keyed_config ''hi'' [''gpt-4o'', ''claude-opus-4-6'']
                    cached_state))
     = [KeyedPost ''gpt-4o'' ''hi'',
        SdkCheck, BridgeRun (chat_argv ''gpt-4o'' ''hi''), BootstrapCall True,
        KeyedPost ''claude-opus-4-6'' ''hi'',
        SdkCheck, BridgeRun (chat_argv ''claude-opus-4-6'' ''hi''), BootstrapCall True]"
    using keyed_no_key cached_token e
    by (simp add: toy_keyed_loop keyed_bridge_step
          del: keyed_loop.simps bridge_loop.simps(2))
  show ?thesis using a b by simp
qed

lemma keyed_world_answer:
  "keyed_answer keyed_world prompt cands s i
     = (if cands ! i = ''claude-opus-4-6'' then Some ''yo'' else None)"
  by (simp add: keyed_answer_def keyed_world_def toy_world_def keyed_content_def
        raises_for_status_def dict_get_def strip_def lstrip_def rstrip_def is_space_def)

lemma toy_world_answer: "keyed_answer toy_world prompt cands s i = None"
  by (simp add: keyed_answer_def toy_world_def keyed_content_def)

lemma keyed_attempts:
  assumes "puter_token S \<noteq> []"
  shows "bridge_attempt toy_world keyed_config ''hi'' [a, b] S 0
           = (Inr auth_failure_reply,
              log_event (BootstrapCall True)
                (log_event (BridgeRun (chat_argv a ''hi'')) (log_event SdkCheck S)))"
    and "bridge_attempt toy_world keyed_config ''hi'' [a, b] S (Suc 0)
           = (Inr auth_failure_reply,
              log_event (BootstrapCall True)
                (log_event (BridgeRun (chat_argv b ''hi''))
                   (log_event SdkCheck
                      (log_event (BootstrapCall True)
                         (log_event (BridgeRun (chat_argv a ''hi'')) (log_event SdkCheck S))))))"
    and "bridge_state toy_world keyed_config ''hi'' [a, b] S
           = log_event (BootstrapCall True)
                (log_event (BridgeRun (chat_argv b ''hi''))
                   (log_event SdkCheck
                      (log_event (BootstrapCall True)
                         (log_event (BridgeRun (chat_argv a ''hi'')) (log_event SdkCheck S)))))"
proof -
  have na: "\<And>c. chat_argv c ''hi'' \<noteq> [''auth-token'']" by (simp add: chat_argv_def)
  have t: "\<And>S' e. puter_token (log_event e S') = puter_token S'"
    by (simp add: puter_token_def log_event_def)
  show "bridge_attempt toy_world keyed_config ''hi'' [a, b] S 0
           = (Inr auth_failure_reply,
              log_event (BootstrapCall True)
                (log_event (BridgeRun (chat_argv a ''hi'')) (log_event SdkCheck S)))"
    by (simp add: bridge_attempt_0 keyed_reauth [OF assms na])
  show "bridge_attempt toy_world keyed_config ''hi'' [a, b] S (Suc 0)
           = (Inr auth_failure_reply,
              log_event (BootstrapCall True)
                (log_event (BridgeRun (chat_argv b ''hi''))
                   (log_event SdkCheck
                      (log_event (BootstrapCall True)
                         (log_event (BridgeRun (chat_argv a ''hi'')) (log_event SdkCheck S))))))"
    using assms by (simp add: bridge_attempt_Suc bridge_attempt_0 keyed_reauth na t)
  show "bridge_state toy_world keyed_config ''hi'' [a, b] S
           = log_event (BootstrapCall True)
                (log_event (BridgeRun (chat_argv b ''hi''))
                   (log_event SdkCheck
                      (log_event (BootstrapCall True)
                         (log_event (BridgeRun (chat_argv a ''hi'')) (log_event SdkCheck S)))))"
    using assms by (simp add: bridge_state_def keyed_reauth na t)
qed

theorem dispatch_keyed_before_bridge_witness:
  "has_static_key keyed_config
   \<and> keyed_answer keyed_world ''hi'' [''gpt-4o'', ''claude-opus-4-6'', ''gemini-2.5-pro'']
        cached_state 0 = None
   \<and> keyed_answer keyed_world ''hi'' [''gpt-4o'', ''claude-opus-4-6'', ''gemini-2.5-pro'']
        cached_state 1 = Some ''yo''
   \<and> dispatch keyed_world keyed_config ''hi'' [''gpt-4o'', ''claude-opus-4-6'', ''gemini-2.5-pro'']
        cached_state
       = (Inr (Some (''yo'', ''claude-opus-4-6'')),
          cached_state\<lparr>events := [KeyedPost ''gpt-4o'' ''hi'', KeyedPost ''claude-opus-4-6'' ''hi'']\<rparr>)
   \<and> dispatch toy_world keyed_config ''hi'' [''gpt-4o'', ''claude-opus-4-6''] cached_state
       = (Inr None,
          cached_state\<lparr>events :=
            [KeyedPost ''gpt-4o'' ''hi'', KeyedPost ''claude-opus-4-6'' ''hi'',
             SdkCheck, BridgeRun (chat_argv ''gpt-4o'' ''hi''), BootstrapCall True,
             SdkCheck, BridgeRun (chat_argv ''claude-opus-4-6'' ''hi''), BootstrapCall True]\<rparr>)"
proof -
  let ?c3 = "[''gpt-4o'', ''claude-opus-4-6'', ''gemini-2.5-pro'']"
  let ?c2 = "[''gpt-4o'', ''claude-opus-4-6'']"
  have e: "events cached_state = []" by (simp add: cached_state_def toy_state_def)
  have a0: "keyed_answer keyed_world ''hi'' ?c3 cached_state 0 = None"
    and a1: "keyed_answer keyed_world ''hi'' ?c3 cached_state 1 = Some ''yo''"
    by (simp_all add: keyed_world_answer)
  have 1: "dispatch keyed_world keyed_config ''hi'' ?c3 cached_state
       = (Inr (Some (''yo'', ''claude-opus-4-6'')),
          cached_state\<lparr>events := [KeyedPost ''gpt-4o'' ''hi'', KeyedPost ''claude-opus-4-6'' ''hi'']\<rparr>)"
    using dispatch_keyed_before_bridge [OF keyed_no_key, of ?c3 keyed_world "''hi''" cached_state]
      a0 a1
    by (simp add: keyed_history_def e All_less_Suc numeral_3_eq_3 numeral_2_eq_2)
  define s0 where "s0 = cached_state\<lparr>events := keyed_history ''hi'' ?c2 cached_state (length ?c2)\<rparr>"
  have tk: "puter_token s0 \<noteq> []" using cached_token by (simp add: s0_def)
  have f: "\<forall>i<length ?c2. attempt_fails (bridge_attempt toy_world keyed_config ''hi'' ?c2 s0 i)"
    using auth_failure_reply_is_failure(2)
    by (simp add: All_less_Suc keyed_attempts [OF tk] attempt_fails_def)
  have k: "\<forall>i<length ?c2. \<not> str_truthy (keyed_answer toy_world ''hi'' ?c2 cached_state i)"
    by (simp add: toy_world_answer)
  have 2: "dispatch toy_world keyed_config ''hi'' ?c2 cached_state
             = (Inr None, bridge_state toy_world keyed_config ''hi'' ?c2 s0)"
    using dispatch_keyed_before_bridge [OF keyed_no_key, of ?c2 toy_world "''hi''" cached_state]
      k f unfolding s0_def by blast
  show ?thesis
    using keyed_no_key a0 a1 1
    unfolding 2 keyed_attempts(3) [OF tk]
    by (simp add: s0_def keyed_history_def e log_event_def)
qed

lemma bridge_success_None [simp]: "\<not> bridge_success JNull"
  by (simp add: bridge_success_def)

lemma run_puter_node_bridge_result:
  "fst (run_puter_node_bridge w cfg argv rt s) = JNull
   \<or> (\<exists>h env out. bridge_run w h argv env = Some out
         \<and> fst (run_puter_node_bridge w cfg argv rt s) = parse_bridge_output w out)"
  by (auto simp: run_puter_node_bridge_def Let_def split: prod.splits option.splits)

lemma run_puter_bridge_with_reauth_result:
  "fst (run_puter_bridge_with_reauth w cfg argv s) \<in> range Inl
   \<or> fst (run_puter_bridge_with_reauth w cfg argv s) = Inr JNull
   \<or> (\<exists>h env out. bridge_run w h argv env = Some out
         \<and> fst (run_puter_bridge_with_reauth w cfg argv s) = Inr (parse_bridge_output w out))"
proof -
  let ?pre = "(if puter_token s = [] then bootstrap_puter_token w cfg False s else (Inr None, s))"
  let ?first = "run_puter_node_bridge w cfg argv True (snd ?pre)"
  let ?forced = "bootstrap_puter_token w cfg True (snd ?first)"
  let ?retry = "run_puter_node_bridge w cfg argv True (snd ?forced)"
  let ?R = "run_puter_bridge_with_reauth w cfg argv s"
  have "fst ?R \<in> {Inr JNull, Inr (fst ?first), Inr (fst ?retry)} \<union> range Inl"
    using run_puter_bridge_with_reauth_states(2) [of w cfg argv s] by simp
  then consider (raised) "fst ?R \<in> range Inl"
    | (none) "fst ?R = Inr JNull"
    | (first) "fst ?R = Inr (fst ?first)"
    | (retry) "fst ?R = Inr (fst ?retry)"
    by blast
  then show ?thesis
  proof cases
    case raised
    then show ?thesis by simp
  next
    case none
    then show ?thesis by simp
  next
    case first
    show ?thesis
      using run_puter_node_bridge_result [of w cfg argv True "snd ?pre"]
      unfolding first by auto
  next
    case retry
    show ?thesis
      using run_puter_node_bridge_result [of w cfg argv True "snd ?forced"]
      unfolding retry by auto
  qed
qed

lemma keyed_loop_all_fail:
  assumes "\<forall>h chosen. chosen \<in> set cands \<longrightarrow>
             \<not> str_truthy (keyed_content w (keyed_post w h chosen prompt))"
  shows "fst (keyed_loop w prompt cands s) = None"
  using assms
proof (induction cands arbitrary: s)
  case Nil
  show ?case by simp
next
  case (Cons c cs)
  have "\<not> str_truthy (keyed_content w (keyed_post w (events s) c prompt))"
    using Cons.prems by simp
  then have "keyed_loop w prompt (c # cs) s = keyed_loop w prompt cs (log_event (KeyedPost c prompt) s)"
    by (auto simp: Let_def split: option.splits)
  then show ?case using Cons by simp
qed

lemma bridge_loop_all_fail:
  assumes "\<forall>h env chosen out. chosen \<in> set cands \<longrightarrow>
             bridge_run w h (chat_argv chosen prompt) env = Some out \<longrightarrow>
             \<not> bridge_success (parse_bridge_output w out)"
  shows "fst (bridge_loop w cfg prompt cands s) \<in> insert (Inr None) (range Inl)"
  using assms
proof (induction cands arbitrary: s)
  case Nil
  show ?case by simp
next
  case (Cons c cs)
  let ?R = "run_puter_bridge_with_reauth w cfg (chat_argv c prompt) s"
  obtain x s1 where R: "?R = (x, s1)" by (cases ?R)
  show ?case
  proof (cases x)
    case (Inl e)
    then show ?thesis using R by simp
  next
    case (Inr payload)
    have "\<not> bridge_success payload"
      using run_puter_bridge_with_reauth_result [of w cfg "chat_argv c prompt" s] Cons.prems
        R Inr by auto
    then have "bridge_loop w cfg prompt (c # cs) s = bridge_loop w cfg prompt cs s1"
      using R Inr by simp
    then show ?thesis using Cons.IH [of s1] Cons.prems by simp
  qed
qed

text \<open>
  When every candidate fails, that is, no keyed answer for a candidate yields content and
  no bridge answer to a candidate's chat request is a success, the dispatcher returns
  \<open>(None, None)\<close> or lets the exception of the token setter escape.
\<close>

lemma dispatch_all_fail:
  assumes "\<forall>h chosen. chosen \<in> set (puter_candidates cfg model) \<longrightarrow>
             \<not> str_truthy (keyed_content w (keyed_post w h chosen prompt))"
    and "\<forall>h env chosen out. chosen \<in> set (puter_candidates cfg model) \<longrightarrow>
             bridge_run w h (chat_argv chosen prompt) env = Some out \<longrightarrow>
             \<not> bridge_success (parse_bridge_output w out)"
  shows "fst (call_puter_with_model w cfg prompt model s) \<in> insert (Inr (None, None)) (range Inl)"
    and "fst (call_puter w cfg prompt model s) \<in> insert (Inr None) (range Inl)"
proof -
  let ?c = "puter_candidates cfg model"
  have k: "\<And>s. fst (keyed_loop w prompt ?c s) = None"
    using keyed_loop_all_fail [OF assms(1)] .
  have b: "\<And>s. fst (bridge_loop w cfg prompt ?c s) \<in> insert (Inr None) (range Inl)"
    using bridge_loop_all_fail [OF assms(2)] .
  have d: "fst (dispatch w cfg prompt ?c s) \<in> insert (Inr None) (range Inl)"
  proof (cases "has_static_key cfg")
    case True
    obtain r s1 where ks: "keyed_loop w prompt ?c s = (r, s1)"
      by (cases "keyed_loop w prompt ?c s") auto
    with k [of s] have "r = None" by simp
    then show ?thesis using True ks b [of s1] by (simp add: dispatch_def)
  next
    case False
    then show ?thesis using b [of s] by (simp add: dispatch_def)
  qed
  obtain x s1 where D: "dispatch w cfg prompt ?c s = (x, s1)"
    by (cases "dispatch w cfg prompt ?c s")
  show 1: "fst (call_puter_with_model w cfg prompt model s)
             \<in> insert (Inr (None, None)) (range Inl)"
    using d D by (cases x) (auto simp: call_puter_with_model_def)
  obtain y s2 where C: "call_puter_with_model w cfg prompt model s = (y, s2)"
    by (cases "call_puter_with_model w cfg prompt model s")
  show "fst (call_puter w cfg prompt model s) \<in> insert (Inr None) (range Inl)"
    using 1 C by (cases y) (auto simp: call_puter_def)
qed

lemma bridge_loop_static_key:
  assumes "has_static_key cfg"
  shows "fst (bridge_loop w cfg prompt cands s) \<notin> range Inl"
proof (induction cands arbitrary: s)
  case Nil
  show ?case by auto
next
  case (Cons c cs)
  let ?R = "run_puter_bridge_with_reauth w cfg (chat_argv c prompt) s"
  obtain x s1 where R: "?R = (x, s1)" by (cases ?R)
  show ?case
  proof (cases x)
    case (Inl e)
    then show ?thesis
      using run_puter_bridge_with_reauth_static_key [OF assms, of w "chat_argv c prompt" s] R
      by auto
  next
    case (Inr payload)
    then show ?thesis using R Cons.IH [of s1] by auto
  qed
qed

lemma dispatch_exhaustion_static_key:
  assumes "has_static_key cfg"
    and "\<forall>h chosen. chosen \<in> set (puter_candidates cfg model) \<longrightarrow>
             \<not> str_truthy (keyed_content w (keyed_post w h chosen prompt))"
    and "\<forall>h env chosen out. chosen \<in> set (puter_candidates cfg model) \<longrightarrow>
             bridge_run w h (chat_argv chosen prompt) env = Some out \<longrightarrow>
             \<not> bridge_success (parse_bridge_output w out)"
  shows "fst (call_puter_with_model w cfg prompt model s) = Inr (None, None)"
proof -
  let ?c = "puter_candidates cfg model"
  obtain r s1 where ks: "keyed_loop w prompt ?c s = (r, s1)"
    by (cases "keyed_loop w prompt ?c s") auto
  with keyed_loop_all_fail [OF assms(2), of s] have r: "r = None" by simp
  have d: "dispatch w cfg prompt ?c s = bridge_loop w cfg prompt ?c s1"
    using assms(1) ks r by (simp add: dispatch_def)
  have "fst (dispatch w cfg prompt ?c s) \<notin> range Inl"
    unfolding d by (rule bridge_loop_static_key [OF assms(1)])
  moreover have "fst (call_puter_with_model w cfg prompt model s)
                   \<in> insert (Inr (None, None)) (range Inl)"
    using dispatch_all_fail(1) [OF assms(2,3)] .
  moreover obtain x s2 where D: "dispatch w cfg prompt ?c s = (x, s2)"
    by (cases "dispatch w cfg prompt ?c s")
  ultimately show ?thesis
    by (cases x) (auto simp: call_puter_with_model_def)
qed

text \<open>
  The failing dispatch: no static key, no cached token, one candidate, and a bridge whose
  login reply carries a token with a NUL character. Every chat request to this bridge
  fails, so every candidate fails.
\<close>

lemma nul_world_all_fail:
  "\<forall>h chosen. \<not> str_truthy (keyed_content nul_world (keyed_post nul_world h chosen prompt))"
  "\<forall>h env chosen out. bridge_run nul_world h (chat_argv chosen prompt) env = Some out \<longrightarrow>
       \<not> bridge_success (parse_bridge_output nul_world out)"
proof -
  show "\<forall>h chosen. \<not> str_truthy (keyed_content nul_world (keyed_post nul_world h chosen prompt))"
    by (simp add: keyed_content_def nul_world_def toy_world_def)
  have p: \<open>parse_bridge_output nul_world ''{"ok": false, "error": "MISSING_AUTH_TOKEN"}''
             = auth_failure_reply\<close>
    by (simp add: parse_bridge_output_def nul_world_def nul_loads_def nul_reply_def
          toy_world_def toy_loads_def
          auth_failure_reply_def strip_def lstrip_def rstrip_def is_space_def bridge_candidates_def
          splitlines_def is_linebreak_def endswith_def)
  show "\<forall>h env chosen out. bridge_run nul_world h (chat_argv chosen prompt) env = Some out \<longrightarrow>
       \<not> bridge_success (parse_bridge_output nul_world out)"
    using p auth_failure_reply_is_failure(2)
    by (auto simp: nul_world_def toy_world_def chat_argv_def)
qed

lemma nul_bootstrap:
  "bootstrap_puter_token nul_world toy_config False (toy_state Map.empty)
     = (Inl ValueError,
        \<lparr>environ = Map.empty, sink = Missing,
         events = [BootstrapCall False, SdkCheck, BridgeRun [''auth-token'']]\<rparr>)"
  by (simp add: bootstrap_puter_token_def has_static_key_def
        run_puter_node_bridge_def nul_world_def nul_loads_def nul_reply_def
        toy_world_def toy_config_def toy_state_def
        puter_token_def join_split_def ensure_puter_sdk_def log_event_def Let_def
        parse_bridge_output_def strip_def lstrip_def rstrip_def is_space_def bridge_candidates_def
        splitlines_def is_linebreak_def endswith_def dict_get_def
        set_puter_token_def or_empty_def py_str_def)

lemma nul_reauth:
  "run_puter_bridge_with_reauth nul_world toy_config argv (toy_state Map.empty)
     = (Inl ValueError,
        \<lparr>environ = Map.empty, sink = Missing,
         events = [BootstrapCall False, SdkCheck, BridgeRun [''auth-token'']]\<rparr>)"
proof -
  have e: "bridge_file_exists nul_world" by (simp add: nul_world_def toy_world_def)
  have t: "puter_token (toy_state Map.empty) = []"
    by (simp add: puter_token_def toy_state_def join_split_def)
  show ?thesis
    unfolding run_puter_bridge_with_reauth_def by (simp add: e t nul_bootstrap)
qed

text \<open>
  Claim C3 fails on the code at this input: the exception of the assignment to
  \<open>os.environ\<close> leaves the dispatcher, \<open>call_puter\<close> and the router, after the bootstrap
  has run the login once; no chat request is made and no pair is returned.
\<close>

theorem dispatch_raises_on_nul_token:
  "call_puter_with_model nul_world toy_config ''hi'' None (toy_state Map.empty)
     = (Inl ValueError,
        \<lparr>environ = Map.empty, sink = Missing,
         events = [BootstrapCall False, SdkCheck, BridgeRun [''auth-token'']]\<rparr>)
   \<and> fst (call_puter nul_world toy_config ''hi'' None (toy_state Map.empty)) = Inl ValueError
   \<and> fst (ask_router nul_world toy_config ''hi'' (toy_state [''QTM_LOCAL_ONLY'' \<mapsto> ''0'']))
       = Inl ValueError"
proof -
  have 1: "call_puter_with_model nul_world toy_config ''hi'' None (toy_state Map.empty)
     = (Inl ValueError,
        \<lparr>environ = Map.empty, sink = Missing,
         events = [BootstrapCall False, SdkCheck, BridgeRun [''auth-token'']]\<rparr>)"
    by (simp add: call_puter_with_model_def toy_candidates dispatch_def toy_no_key nul_reauth)
  have 2: "fst (call_puter nul_world toy_config ''hi'' None (toy_state Map.empty)) = Inl ValueError"
    by (simp add: call_puter_def 1)
  have t: "puter_token (toy_state [''QTM_LOCAL_ONLY'' \<mapsto> ''0'']) = []"
    by (simp add: puter_token_def toy_state_def join_split_def)
  have e: "bridge_file_exists nul_world" by (simp add: nul_world_def toy_world_def)
  have b: "fst (bootstrap_puter_token nul_world toy_config False
                  (toy_state [''QTM_LOCAL_ONLY'' \<mapsto> ''0''])) = Inl ValueError"
    by (simp add: bootstrap_puter_token_def has_static_key_def
        run_puter_node_bridge_def nul_world_def nul_loads_def nul_reply_def
        toy_world_def toy_config_def toy_state_def
        puter_token_def join_split_def ensure_puter_sdk_def log_event_def Let_def
        parse_bridge_output_def strip_def lstrip_def rstrip_def is_space_def bridge_candidates_def
        splitlines_def is_linebreak_def endswith_def dict_get_def
        set_puter_token_def or_empty_def py_str_def)
  have r: "fst (run_puter_bridge_with_reauth nul_world toy_config argv
                  (toy_state [''QTM_LOCAL_ONLY'' \<mapsto> ''0''])) = Inl ValueError" for argv
    using b unfolding run_puter_bridge_with_reauth_def
    by (cases "bootstrap_puter_token nul_world toy_config False
                  (toy_state [''QTM_LOCAL_ONLY'' \<mapsto> ''0''])") (simp add: e t)
  have c: "fst (call_puter nul_world toy_config ''hi'' None
                  (toy_state [''QTM_LOCAL_ONLY'' \<mapsto> ''0''])) = Inl ValueError"
    using r [of "chat_argv ''claude-opus-4-6'' ''hi''"]
    by (cases "run_puter_bridge_with_reauth nul_world toy_config
                 (chat_argv ''claude-opus-4-6'' ''hi'') (toy_state [''QTM_LOCAL_ONLY'' \<mapsto> ''0''])")
       (simp add: call_puter_def call_puter_with_model_def toy_candidates dispatch_def toy_no_key)
  have l: "\<not> local_only (toy_state [''QTM_LOCAL_ONLY'' \<mapsto> ''0''])"
    by (simp add: local_only_def getenv_default_def toy_state_def)
  have 3: "fst (ask_router nul_world toy_config ''hi'' (toy_state [''QTM_LOCAL_ONLY'' \<mapsto> ''0'']))
       = Inl ValueError"
    using c
    by (cases "call_puter nul_world toy_config ''hi'' None
                  (toy_state [''QTM_LOCAL_ONLY'' \<mapsto> ''0''])") (simp add: ask_router_def l)
  show ?thesis using 1 2 3 by simp
qed

section \<open>The durable sink\<close>

lemma linebreak_is_space: "is_linebreak c \<Longrightarrow> is_space c"
  by (auto simp: is_linebreak_def is_space_def)

lemma is_space_LF [simp]: "is_space (CHR 0x0A)" "is_linebreak (CHR 0x0A)"
  by (simp_all add: is_space_def is_linebreak_def)

lemma rstrip_Nil [simp]: "rstrip [] = []"
  by (simp add: rstrip_def)

lemma rstrip_empty_iff: "rstrip s = [] \<longleftrightarrow> list_all is_space s"
  by (auto simp: rstrip_def list_all_iff)

lemma rstrip_Cons: "rstrip (c # m) = (if is_space c \<and> rstrip m = [] then [] else c # rstrip m)"
proof (cases "list_all is_space m")
  case True
  then have "rstrip m = []" by (simp add: rstrip_empty_iff)
  moreover have "dropWhile is_space (rev m @ [c]) = dropWhile is_space [c]"
    using True by (simp add: dropWhile_append list_all_iff)
  ultimately show ?thesis by (simp add: rstrip_def)
next
  case False
  then have ne: "rstrip m \<noteq> []" by (simp add: rstrip_empty_iff)
  have "dropWhile is_space (rev m @ [c]) = dropWhile is_space (rev m) @ [c]"
    using False by (auto simp: dropWhile_append list_all_iff)
  then show ?thesis using ne by (simp add: rstrip_def)
qed

lemma rstrip_append:
  "rstrip (a @ t) = (if rstrip t = [] then rstrip a else a @ rstrip t)"
  by (induction a) (auto simp: rstrip_Cons)

lemma rstrip_idem [simp]: "rstrip (rstrip s) = rstrip s"
  by (induction s) (auto simp: rstrip_Cons)

lemma set_rstrip: "set (rstrip s) \<subseteq> set s"
  by (induction s) (auto simp: rstrip_Cons)

lemma lstrip_rstrip: "lstrip (rstrip s) = rstrip (lstrip s)"
proof (induction s)
  case Nil
  show ?case by (simp add: lstrip_def)
next
  case (Cons c m)
  show ?case
  proof (cases "is_space c")
    case True
    have "rstrip m = [] \<Longrightarrow> rstrip (lstrip m) = []"
      by (auto simp: rstrip_empty_iff lstrip_def list_all_iff dest: set_dropWhileD)
    then show ?thesis
      using True Cons by (auto simp: rstrip_Cons lstrip_def)
  next
    case False
    then show ?thesis by (simp add: rstrip_Cons lstrip_def)
  qed
qed

lemma strip_rstrip [simp]: "strip (rstrip s) = strip s"
  by (simp add: strip_def lstrip_rstrip)

lemma matches_key_rstrip [simp]: "matches_key key (rstrip l) = matches_key key l"
  by (simp add: matches_key_def)

lemma startswith_append [simp]: "startswith (p @ s) p"
  by (induction p) auto

lemma startswith_Nil [simp]: "startswith [] p = (p = [])"
  by (cases p) auto

lemma matches_key_line:
  assumes "key = [] \<or> \<not> is_space (hd key)"
  shows "matches_key key (key @ ''='' @ val)"
proof -
  have ns: "\<not> is_space CHR ''=''" by (simp add: is_space_def)
  have l: "lstrip (key @ CHR ''='' # val) = key @ CHR ''='' # val"
    using assms ns by (cases key) (auto simp: lstrip_def)
  have "rstrip (key @ CHR ''='' # val) = key @ CHR ''='' # rstrip val"
    using ns by (simp add: rstrip_append rstrip_Cons)
  then show ?thesis
    using startswith_append [of "key @ ''=''" "rstrip val"]
    by (simp add: matches_key_def strip_def l)
qed

lemma matches_key_nonblank: "matches_key key l \<Longrightarrow> rstrip l \<noteq> []"
proof
  assume m: "matches_key key l" and "rstrip l = []"
  then have "list_all is_space l" by (simp add: rstrip_empty_iff)
  then have "strip l = []"
    by (auto simp: strip_def lstrip_def rstrip_empty_iff list_all_iff dest: set_dropWhileD)
  with m show False by (simp add: matches_key_def)
qed


lemma splitlines_from_universal:
  "splitlines_from cur (universal_newlines s) = splitlines_from cur s"
proof (induction s arbitrary: cur rule: universal_newlines.induct)
  case 1
  show ?case by simp
next
  case (2 c cs)
  show ?case
  proof (cases "c = CHR 0x0D")
    case True
    then show ?thesis using 2(1) [OF True] by (simp add: is_linebreak_def)
  next
    case False
    then show ?thesis using 2(2) [OF False] by simp
  qed
qed

lemma splitlines_from_line:
  assumes "\<not> list_ex is_linebreak l"
  shows "splitlines_from cur (l @ CHR 0x0A # rest) = (cur @ l) # splitlines_from [] rest"
  using assms by (induction l arbitrary: cur) auto

lemma splitlines_lines_text:
  assumes "\<forall>l\<in>set ls. \<not> list_ex is_linebreak l"
  shows "splitlines (lines_text ls) = ls"
  using assms
proof (induction ls)
  case Nil
  show ?case by (simp add: splitlines_def lines_text_def)
next
  case (Cons l ls)
  then show ?case
    using splitlines_from_line [of l "[]" "lines_text ls"]
    by (simp add: splitlines_def lines_text_def)
qed

lemma splitlines_from_clean:
  assumes "\<not> list_ex is_linebreak cur"
  shows "\<forall>l\<in>set (splitlines_from cur s). \<not> list_ex is_linebreak l"
  using assms
proof (induction cur s rule: splitlines_from.induct)
  case (1 cur)
  then show ?case by simp
next
  case (2 cur c cs)
  show ?case
  proof (cases "is_linebreak c")
    case True
    then show ?thesis using 2(1) [OF True] 2(3) by simp
  next
    case False
    then show ?thesis using 2(2) [OF False] 2(3) by simp
  qed
qed

lemma read_lines_clean: "\<forall>l\<in>set (read_lines f). \<not> list_ex is_linebreak l"
  using splitlines_from_clean [of "[]"]
  by (cases f) (simp_all add: read_lines_def splitlines_def)

lemma trim_lines_text:
  "(trim_lines ls = [] \<longleftrightarrow> rstrip (lines_text ls) = [])
   \<and> (trim_lines ls \<noteq> [] \<longrightarrow> rstrip (lines_text ls) @ [CHR 0x0A] = lines_text (trim_lines ls))"
proof (induction ls)
  case Nil
  show ?case by (simp add: lines_text_def)
next
  case (Cons l ls)
  have t: "lines_text (l # ls) = l @ CHR 0x0A # lines_text ls"
    by (simp add: lines_text_def)
  show ?case
  proof (cases "trim_lines ls = []")
    case True
    with Cons have "rstrip (lines_text ls) = []" by simp
    then have "rstrip (lines_text (l # ls)) = rstrip l"
      by (simp add: t rstrip_append rstrip_Cons)
    then show ?thesis using True by (simp add: lines_text_def)
  next
    case False
    with Cons have ne: "rstrip (lines_text ls) \<noteq> []"
      and e: "rstrip (lines_text ls) @ [CHR 0x0A] = lines_text (trim_lines ls)" by simp_all
    have "rstrip (lines_text (l # ls)) = l @ CHR 0x0A # rstrip (lines_text ls)"
      using ne by (simp add: t rstrip_append rstrip_Cons)
    then show ?thesis using False e by (simp add: lines_text_def)
  qed
qed

lemma join_nl_lines_text: "ls \<noteq> [] \<Longrightarrow> join_nl ls @ [CHR 0x0A] = lines_text ls"
  by (induction ls rule: join_nl.induct) (simp_all add: lines_text_def)

lemma rstrip_join_nl: "rstrip (join_nl ls) = rstrip (lines_text ls)"
proof (cases "ls = []")
  case True
  then show ?thesis by (simp add: lines_text_def)
next
  case False
  have "rstrip (join_nl ls @ [CHR 0x0A]) = rstrip (join_nl ls)"
    by (simp add: rstrip_append rstrip_Cons)
  then show ?thesis using join_nl_lines_text [OF False] by simp
qed

lemma upsert_loop_eq:
  "upsert_loop key val lines (out, replaced)
     = (out @ map (upsert_line key val) lines, replaced \<or> list_ex (matches_key key) lines)"
  by (induction lines arbitrary: out replaced) (auto simp: upsert_line_def matches_key_def)

lemma upsert_lines_eq:
  "upsert_lines key val lines
     = map (upsert_line key val) lines
       @ (if list_ex (matches_key key) lines then [] else [key @ ''='' @ val])"
  by (simp add: upsert_lines_def upsert_loop_eq)


lemma trim_lines_mem:
  "x \<in> set ls \<Longrightarrow> rstrip x \<noteq> [] \<Longrightarrow> x \<in> set (trim_lines ls) \<or> rstrip x \<in> set (trim_lines ls)"
  by (induction ls) (auto split: if_splits)

lemma trim_lines_subset: "set (trim_lines ls) \<subseteq> set ls \<union> rstrip ` set ls"
  by (induction ls) (auto split: if_splits)

lemma trim_lines_clean:
  assumes "\<forall>l\<in>set ls. \<not> list_ex is_linebreak l"
  shows "\<forall>l\<in>set (trim_lines ls). \<not> list_ex is_linebreak l"
proof
  fix l assume "l \<in> set (trim_lines ls)"
  then consider "l \<in> set ls" | x where "x \<in> set ls" "l = rstrip x"
    using trim_lines_subset [of ls] by auto
  then show "\<not> list_ex is_linebreak l"
  proof cases
    case 1
    then show ?thesis using assms by simp
  next
    case 2
    then show ?thesis using assms set_rstrip [of x] by (auto simp: list_ex_iff)
  qed
qed

lemma trim_lines_upsert:
  assumes m: "matches_key key (key @ ''='' @ val)"
    and g: "\<forall>l\<in>set ls. l = key @ ''='' @ val \<or> \<not> matches_key key l"
  shows "trim_lines (map (upsert_line key val) (trim_lines ls)) = trim_lines ls"
  using g
proof (induction ls)
  case Nil
  show ?case by simp
next
  case (Cons l ls)
  have gl: "l = key @ ''='' @ val \<or> \<not> matches_key key l" using Cons.prems by simp
  have ih: "trim_lines (map (upsert_line key val) (trim_lines ls)) = trim_lines ls"
    using Cons by simp
  have same: "upsert_line key val l = l"
    using gl m by (auto simp: upsert_line_def)
  have trimmed: "rstrip (upsert_line key val (rstrip l)) = rstrip l"
    using gl m by (auto simp: upsert_line_def)
  show ?case
  proof (cases "trim_lines ls = []")
    case True
    then show ?thesis using trimmed by simp
  next
    case False
    then show ?thesis using ih same by simp
  qed
qed

lemma upsert_written:
  assumes k2: "key = [] \<or> \<not> is_space (hd key)"
  shows "upsert_env_var True key val f
     = Inr (Text (lines_text (trim_lines (upsert_lines key val (read_lines f)))))"
    and "trim_lines (upsert_lines key val (read_lines f)) \<noteq> []"
    and "list_ex (matches_key key) (trim_lines (upsert_lines key val (read_lines f)))"
proof -
  let ?kv = "key @ ''='' @ val"
  let ?out = "upsert_lines key val (read_lines f)"
  have m: "matches_key key ?kv" by (rule matches_key_line [OF k2])
  have nb: "rstrip ?kv \<noteq> []" by (rule matches_key_nonblank [OF m])
  have mem: "?kv \<in> set ?out"
    by (auto simp: upsert_lines_eq upsert_line_def list_ex_iff)
  from trim_lines_mem [OF mem nb]
  have t: "?kv \<in> set (trim_lines ?out) \<or> rstrip ?kv \<in> set (trim_lines ?out)" .
  then show ne: "trim_lines ?out \<noteq> []" by auto
  show "list_ex (matches_key key) (trim_lines ?out)"
    using t m matches_key_rstrip [of key ?kv] unfolding list_ex_iff by blast
  show "upsert_env_var True key val f = Inr (Text (lines_text (trim_lines ?out)))"
    using ne trim_lines_text [of ?out]
    by (simp add: upsert_env_var_def rstrip_join_nl)
qed

lemma upsert_twice:
  assumes k1: "\<not> list_ex is_linebreak key"
    and k2: "key = [] \<or> \<not> is_space (hd key)"
    and v: "\<not> list_ex is_linebreak val"
  shows "upsert_env_var True key val
           (Text (lines_text (trim_lines (upsert_lines key val (read_lines f)))))
         = Inr (Text (lines_text (trim_lines (upsert_lines key val (read_lines f)))))"
proof -
  let ?kv = "key @ ''='' @ val"
  let ?out = "upsert_lines key val (read_lines f)"
  let ?W = "Text (lines_text (trim_lines ?out))"
  have m: "matches_key key ?kv" by (rule matches_key_line [OF k2])
  have ckv: "\<not> list_ex is_linebreak ?kv"
    using k1 v by (simp add: is_linebreak_def)
  have clean: "\<forall>l\<in>set ?out. \<not> list_ex is_linebreak l"
    using read_lines_clean [of f] ckv
    by (auto simp: upsert_lines_eq upsert_line_def)
  have good: "\<forall>l\<in>set ?out. l = ?kv \<or> \<not> matches_key key l"
    by (auto simp: upsert_lines_eq upsert_line_def)
  have rl: "read_lines ?W = trim_lines ?out"
    using splitlines_lines_text [OF trim_lines_clean [OF clean]]
    by (simp add: read_lines_def splitlines_def splitlines_from_universal)
  have ex: "list_ex (matches_key key) (trim_lines ?out)"
    by (rule upsert_written(3) [OF k2])
  have "upsert_lines key val (trim_lines ?out) = map (upsert_line key val) (trim_lines ?out)"
    by (simp only: upsert_lines_eq [of key val "trim_lines ?out"] ex if_True append_Nil2)
  then have out2: "upsert_lines key val (read_lines ?W)
      = map (upsert_line key val) (trim_lines ?out)"
    by (simp only: rl)
  have "trim_lines (upsert_lines key val (read_lines ?W)) = trim_lines ?out"
    unfolding out2 by (rule trim_lines_upsert [OF m good])
  then show ?thesis
    using upsert_written(1) [OF k2, of val ?W] by simp
qed


text \<open>
  Claim C8, amended. The lines the upsert works on are the lines of the file, and none when
  the file is missing or cannot be read: what an unreadable file held is discarded. For a
  key without line break that does not begin with whitespace and a value without line
  break, the loop replaces every line that matches the key by \<open>key=value\<close>, keeps every
  other line, and appends \<open>key=value\<close> when no line matches; the file written is these
  lines without trailing blank lines and without trailing whitespace on the last line, each
  followed by \<open>\n\<close>; and upserting the same key and value into the written file writes the
  same text again. The same holds for the fingerprint line, a value that is a function of
  the token.
\<close>

theorem upsert_env_var_idempotent:
  assumes "\<not> list_ex is_linebreak key" "key = [] \<or> \<not> is_space (hd key)"
    and "\<not> list_ex is_linebreak val"
  shows "upsert_lines key val lines
           = map (upsert_line key val) lines
             @ (if list_ex (matches_key key) lines then [] else [key @ ''='' @ val])
         \<and> upsert_env_var True key val f
             = Inr (Text (lines_text (trim_lines
                 (case f of
                    Text t \<Rightarrow> upsert_lines key val (splitlines (universal_newlines t))
                  | Missing \<Rightarrow> [key @ ''='' @ val]
                  | Unreadable \<Rightarrow> [key @ ''='' @ val]))))
         \<and> (\<exists>f'. upsert_env_var True key val f = Inr f'
                \<and> upsert_env_var True key val f' = Inr f')
         \<and> (\<not> list_ex is_linebreak (token_sha256 w val) \<longrightarrow>
              (\<exists>g'. upsert_env_var True ''PUTER_TOKEN_SHA256'' (token_sha256 w val) g = Inr g'
                 \<and> upsert_env_var True ''PUTER_TOKEN_SHA256'' (token_sha256 w val) g' = Inr g'))"
proof -
  have h: "\<not> list_ex is_linebreak ''PUTER_TOKEN_SHA256''"
      "''PUTER_TOKEN_SHA256'' = [] \<or> \<not> is_space (hd ''PUTER_TOKEN_SHA256'')"
    by (simp_all add: is_linebreak_def is_space_def)
  have r: "upsert_lines key val (read_lines f)
             = (case f of
                    Text t \<Rightarrow> upsert_lines key val (splitlines (universal_newlines t))
                  | Missing \<Rightarrow> [key @ ''='' @ val]
                  | Unreadable \<Rightarrow> [key @ ''='' @ val])"
    by (cases f) (simp_all add: read_lines_def upsert_lines_eq)
  have 1: "upsert_lines key val lines
           = map (upsert_line key val) lines
             @ (if list_ex (matches_key key) lines then [] else [key @ ''='' @ val])"
    by (rule upsert_lines_eq)
  have 2: "upsert_env_var True key val f
             = Inr (Text (lines_text (trim_lines
                 (case f of
                    Text t \<Rightarrow> upsert_lines key val (splitlines (universal_newlines t))
                  | Missing \<Rightarrow> [key @ ''='' @ val]
                  | Unreadable \<Rightarrow> [key @ ''='' @ val]))))"
    using upsert_written(1) [OF assms(2), of val f] unfolding r .
  have 3: "\<exists>f'. upsert_env_var True key val f = Inr f'
                \<and> upsert_env_var True key val f' = Inr f'"
    using upsert_written(1) [OF assms(2), of val f] upsert_twice [OF assms, of f] by simp
  have 4: "\<not> list_ex is_linebreak (token_sha256 w val) \<longrightarrow>
              (\<exists>g'. upsert_env_var True ''PUTER_TOKEN_SHA256'' (token_sha256 w val) g = Inr g'
                 \<and> upsert_env_var True ''PUTER_TOKEN_SHA256'' (token_sha256 w val) g' = Inr g')"
    using upsert_written(1) [OF h(2), of "token_sha256 w val" g]
      upsert_twice [OF h, of "token_sha256 w val" g] by simp
  show ?thesis using 1 2 3 4 by blast
qed

theorem upsert_env_var_idempotent_witness:
  "upsert_env_var True ''PUTER_AUTH_TOKEN'' ''tok1'' Missing
     = Inr (Text (''PUTER_AUTH_TOKEN=tok1'' @ [CHR 0x0A]))
   \<and> upsert_env_var True ''PUTER_AUTH_TOKEN'' ''tok1'' Unreadable
     = Inr (Text (''PUTER_AUTH_TOKEN=tok1'' @ [CHR 0x0A]))
   \<and> upsert_env_var True ''PUTER_AUTH_TOKEN'' ''tok1'' (Text (''PUTER_AUTH_TOKEN=tok1'' @ [CHR 0x0A]))
     = Inr (Text (''PUTER_AUTH_TOKEN=tok1'' @ [CHR 0x0A]))"
proof -
  have h: "\<not> list_ex is_linebreak ''PUTER_AUTH_TOKEN''"
      "''PUTER_AUTH_TOKEN'' = [] \<or> \<not> is_space (hd ''PUTER_AUTH_TOKEN'')"
      "\<not> list_ex is_linebreak ''tok1''"
    by (simp_all add: is_linebreak_def is_space_def)
  have t: "lines_text (trim_lines [''PUTER_AUTH_TOKEN'' @ ''='' @ ''tok1''])
             = ''PUTER_AUTH_TOKEN=tok1'' @ [CHR 0x0A]"
    by (simp add: lines_text_def rstrip_def is_space_def)
  from upsert_env_var_idempotent [OF h, of "[]" Missing]
    upsert_env_var_idempotent [OF h, of "[]" Unreadable]
  show ?thesis using t by auto
qed

text \<open>
  Claim C8, as stated, fails on the other lines: when the matching line is not the last
  one, the whitespace at the end of the last line is dropped by the final right-trim, so a
  line other than the key's is changed.
\<close>

theorem upsert_trims_other_line:
  "upsert_env_var True ''PUTER_AUTH_TOKEN'' ''tok1''
     (Text (''PUTER_AUTH_TOKEN=old'' @ [CHR 0x0A] @ ''OLLAMA_MODEL=llama3  '' @ [CHR 0x0A]))
   = Inr (Text (''PUTER_AUTH_TOKEN=tok1'' @ [CHR 0x0A] @ ''OLLAMA_MODEL=llama3'' @ [CHR 0x0A]))
   \<and> read_lines (Text (''PUTER_AUTH_TOKEN=old'' @ [CHR 0x0A] @ ''OLLAMA_MODEL=llama3  '' @ [CHR 0x0A]))
       = [''PUTER_AUTH_TOKEN=old'', ''OLLAMA_MODEL=llama3  '']
   \<and> read_lines (Text (''PUTER_AUTH_TOKEN=tok1'' @ [CHR 0x0A] @ ''OLLAMA_MODEL=llama3'' @ [CHR 0x0A]))
       = [''PUTER_AUTH_TOKEN=tok1'', ''OLLAMA_MODEL=llama3'']"
  by (simp add: upsert_env_var_def read_lines_def upsert_lines_def splitlines_def is_linebreak_def
        strip_def lstrip_def rstrip_def is_space_def)


end
